theory Spec2Isabelle
  imports Complex_Main "HOL-Library.Multiset" "HOL-Library.Sublist"
begin

section \<open>Python strings\<close>

text \<open>
  A Python \<open>str\<close> is modelled as a \<open>string\<close>; a character is one of the 256 code
  points of \<open>char\<close>. The whitespace characters are the ones \<open>str.isspace\<close> accepts in
  that range: the codes 9 to 13, 28 to 32, 133 and 160.
\<close>

definition whitespace_chars :: "char list" where
  "whitespace_chars =
     [CHR 0x09, CHR 0x0A, CHR 0x0B, CHR 0x0C, CHR 0x0D,
      CHR 0x1C, CHR 0x1D, CHR 0x1E, CHR 0x1F, CHR 0x20, CHR 0x85, CHR 0xA0]"

definition isspace :: "char \<Rightarrow> bool" where
  "isspace c = (c \<in> set whitespace_chars)"

text \<open>\<open>s.split()\<close>: the maximal runs of characters that are not whitespace.\<close>

fun split_acc :: "string \<Rightarrow> string \<Rightarrow> string list" where
  "split_acc acc [] = (if acc = [] then [] else [rev acc])"
| "split_acc acc (c # cs) =
     (if isspace c
      then (if acc = [] then split_acc [] cs else rev acc # split_acc [] cs)
      else split_acc (c # acc) cs)"

definition split_ws :: "string \<Rightarrow> string list" where
  "split_ws s = split_acc [] s"

text \<open>\<open>s.strip()\<close>: whitespace removed at both ends.\<close>

definition strip :: "string \<Rightarrow> string" where
  "strip s = rev (dropWhile isspace (rev (dropWhile isspace s)))"

text \<open>\<open>sep.join(xs)\<close>, which is what \<open>seq(xs).make_string(sep)\<close> computes on strings.\<close>

fun make_string :: "string \<Rightarrow> string list \<Rightarrow> string" where
  "make_string sep [] = []"
| "make_string sep [x] = x"
| "make_string sep (x # y # ys) = x @ sep @ make_string sep (y # ys)"

text \<open>
  \<open>s.replace(old, new)\<close>: every occurrence of \<open>old\<close>, found from the left without
  overlap, becomes \<open>new\<close>; an empty \<open>old\<close> matches before every character and at the end.
\<close>

fun replace_scan :: "string \<Rightarrow> string \<Rightarrow> string \<Rightarrow> string" where
  "replace_scan old new [] = []"
| "replace_scan old new (c # cs) =
     (if prefix old (c # cs)
      then new @ replace_scan old new (drop (length old - 1) cs)
      else c # replace_scan old new cs)"

definition replace :: "string \<Rightarrow> string \<Rightarrow> string \<Rightarrow> string" where
  "replace s old new =
     (if old = [] then new @ concat (map (\<lambda>c. c # new) s)
      else replace_scan old new s)"

text \<open>
  \<open>s.split(sep)\<close>: the pieces between the occurrences of \<open>sep\<close>, found from the left
  without overlap. An empty separator raises \<open>ValueError\<close>.
\<close>

datatype error = ValueError | IndexError | KeyError | OracleFailure

fun split_scan :: "string \<Rightarrow> string \<Rightarrow> string \<Rightarrow> string list" where
  "split_scan sep acc [] = [rev acc]"
| "split_scan sep acc (c # cs) =
     (if prefix sep (c # cs)
      then rev acc # split_scan sep [] (drop (length sep - 1) cs)
      else split_scan sep (c # acc) cs)"

definition split_sep :: "string \<Rightarrow> string \<Rightarrow> error + string list" where
  "split_sep s sep = (if sep = [] then Inl ValueError else Inr (split_scan sep [] s))"

section \<open>Sequence operations of PyFunctional\<close>

text \<open>
  Modelled from the spec: \<open>Sequence.distinct\<close> of the PyFunctional library, which
  \<open>rank\<close> calls as \<open>seq(options).distinct()\<close> and which is not among the source
  files. The specification has it deduplicate by exact string equality, keeping the
  first occurrence of every string in the order of the input: the sequence is walked
  with the elements seen so far, and an element is kept when it is not among them.
\<close>

fun distinct_seen :: "'a list \<Rightarrow> 'a list \<Rightarrow> 'a list" where
  "distinct_seen seen [] = []"
| "distinct_seen seen (x # xs) =
     (if x \<in> set seen then distinct_seen seen xs else x # distinct_seen (x # seen) xs)"

text \<open>
  Modelled from the spec: the result of \<open>seq(xs).distinct()\<close>, the walk above started
  with nothing seen.
\<close>

definition distinct_t :: "'a list \<Rightarrow> 'a list" where
  "distinct_t xs = distinct_seen [] xs"

text \<open>
  \<open>zip(*xss)\<close>: the columns of \<open>xss\<close>, as many as the shortest row has elements; no
  column at all when there is no row.
\<close>

function zip_star :: "'a list list \<Rightarrow> 'a list list" where
  "zip_star xss =
     (if xss = [] \<or> [] \<in> set xss then []
      else map hd xss # zip_star (map tl xss))"
  by pat_completeness auto
termination
proof (relation "measure (\<lambda>xss. length (hd xss))")
  show "wf (measure (\<lambda>xss. length (hd xss)))" by simp
next
  fix xss :: "'a list list"
  assume a: "\<not> (xss = [] \<or> [] \<in> set xss)"
  then obtain xs rest where xss: "xss = xs # rest" by (cases xss) auto
  with a have "xs \<noteq> []" by auto
  then show "(map tl xss, xss) \<in> measure (\<lambda>xss. length (hd xss))"
    using xss by (cases xs) auto
qed

declare zip_star.simps [simp del]

text \<open>
  \<open>sorted(xs, key=fst, reverse=True)\<close>: a stable sort into descending order of the key,
  written as an insertion sort: an element goes in front of the first element whose key
  is at most its own.
\<close>

fun insert_desc :: "('k::linorder) \<times> 'a \<Rightarrow> ('k \<times> 'a) list \<Rightarrow> ('k \<times> 'a) list" where
  "insert_desc p [] = [p]"
| "insert_desc p (q # qs) =
     (if fst q \<le> fst p then p # q # qs else q # insert_desc p qs)"

fun sorted_desc :: "(('k::linorder) \<times> 'a) list \<Rightarrow> ('k \<times> 'a) list" where
  "sorted_desc [] = []"
| "sorted_desc (p # ps) = insert_desc p (sorted_desc ps)"

section \<open>The model, the tokenizer and the calls made to them\<close>

text \<open>
  A \<open>FitBertT\<close> object holds the placeholder, a tokenizer and a masked language
  model. The tokenizer splits a text into tokens and looks a token up in its vocabulary
  (\<open>KeyError\<close> for a token it does not have); the model maps a batch of id sequences to
  one row of scores over the vocabulary for every position of every sequence, or fails.
\<close>

record 'f fitbert =
  mask_token :: string
  tokenize :: "string \<Rightarrow> string list"
  vocab :: "string \<Rightarrow> nat option"
  bert :: "nat list list \<Rightarrow> 'f list list list option"
  float_exp :: "'f \<Rightarrow> 'f"
  float_sum :: "'f list \<Rightarrow> 'f"
  float_div :: "'f \<Rightarrow> 'f \<Rightarrow> 'f"
  float_mul :: "'f \<Rightarrow> 'f \<Rightarrow> 'f"
  float_one :: "'f"

text \<open>
  The scores are floating-point numbers, the type \<open>'f\<close>. Their arithmetic is not
  modelled: the exponential, the sum of a row, the division and the product, and the
  number one, are taken as they come with the object, so that nothing is assumed about
  rounding, overflow or underflow. Where scores are sorted they are taken in a linear
  order, which leaves out a score that is not a number.
\<close>

text \<open>
  A computation returns a value or an error, together with the calls it has made to
  the tokenizer and to the model, in the order it made them.
\<close>

datatype call =
  Tokenize string
| ConvertTokensToIds "string list"
| Bert "nat list list"

type_synonym 'a run = "(error + 'a) \<times> call list"

definition ret :: "'a \<Rightarrow> 'a run" where
  "ret x = (Inr x, [])"

definition fail_with :: "error \<Rightarrow> 'a run" where
  "fail_with e = (Inl e, [])"

definition then_run :: "'a run \<Rightarrow> ('a \<Rightarrow> 'b run) \<Rightarrow> 'b run" where
  "then_run m f =
     (case m of
        (Inl e, l) \<Rightarrow> (Inl e, l)
      | (Inr x, l) \<Rightarrow> (case f x of (r, l') \<Rightarrow> (r, l @ l')))"

text \<open>A lazy \<open>map\<close> that is consumed to the end: element after element, up to the first error.\<close>

fun traverse :: "('a \<Rightarrow> 'b run) \<Rightarrow> 'a list \<Rightarrow> 'b list run" where
  "traverse f [] = ret []"
| "traverse f (x # xs) =
     then_run (f x) (\<lambda>y. then_run (traverse f xs) (\<lambda>ys. ret (y # ys)))"

definition call_tokenize :: "'f fitbert \<Rightarrow> string \<Rightarrow> string list run" where
  "call_tokenize self s = (Inr (tokenize self s), [Tokenize s])"

definition convert_tokens_to_ids :: "'f fitbert \<Rightarrow> string list \<Rightarrow> nat list run" where
  "convert_tokens_to_ids self tokens =
     (case those (map (vocab self) tokens) of
        None \<Rightarrow> (Inl KeyError, [ConvertTokensToIds tokens])
      | Some ids \<Rightarrow> (Inr ids, [ConvertTokensToIds tokens]))"

definition call_bert :: "'f fitbert \<Rightarrow> nat list list \<Rightarrow> 'f list list list run" where
  "call_bert self tens =
     (case bert self tens of
        None \<Rightarrow> (Inl OracleFailure, [Bert tens])
      | Some preds \<Rightarrow> (Inr preds, [Bert tens]))"

text \<open>\<open>xs[i]\<close> for an index that is not negative.\<close>

definition item :: "'a list \<Rightarrow> nat \<Rightarrow> 'a run" where
  "item xs i = (if i < length xs then ret (xs ! i) else fail_with IndexError)"

section \<open>Scoring\<close>

text \<open>\<open>softmax\<close> normalises along the last dimension.\<close>

definition softmax_row :: "'f fitbert \<Rightarrow> 'f list \<Rightarrow> 'f list" where
  "softmax_row self x =
     map (\<lambda>v. float_div self (float_exp self v) (float_sum self (map (float_exp self) x))) x"

definition softmax :: "'f fitbert \<Rightarrow> 'f list list list \<Rightarrow> 'f list list list" where
  "softmax self x = map (map (softmax_row self)) x"

definition tokens_to_masked_ids :: "'f fitbert \<Rightarrow> string list \<Rightarrow> nat \<Rightarrow> nat list run" where
  "tokens_to_masked_ids self tokens mask_ind =
     (if mask_ind < length tokens
      then convert_tokens_to_ids self
             ([''[CLS]''] @ tokens[mask_ind := ''[MASK]''] @ [''[SEP]''])
      else fail_with IndexError)"

definition get_sentence_probability :: "'f fitbert \<Rightarrow> string \<Rightarrow> 'f run" where
  "get_sentence_probability self sent =
     then_run (call_tokenize self sent) (\<lambda>tokens.
     then_run (traverse (\<lambda>(i, x). tokens_to_masked_ids self tokens i) (enumerate 0 tokens))
       (\<lambda>input_ids.
     then_run (call_bert self input_ids) (\<lambda>preds.
     let probs = softmax self preds in
     then_run (convert_tokens_to_ids self tokens) (\<lambda>tokens_ids.
     then_run (traverse (\<lambda>(i, x).
                 then_run (item probs i) (\<lambda>a.
                 then_run (item a (i + 1)) (\<lambda>b. item b x)))
               (enumerate 0 tokens_ids)) (\<lambda>ps.
     ret (foldl (\<lambda>x y. float_mul self x y) (float_one self) ps))))))"

text \<open>The score of one word in \<open>rank_single\<close>: the probability of its first token's id.\<close>

definition word_score :: "'f fitbert \<Rightarrow> 'f list list list \<Rightarrow> nat \<Rightarrow> string \<Rightarrow> 'f run" where
  "word_score self probs target_idx w =
     then_run (call_tokenize self w) (\<lambda>toks.
     then_run (convert_tokens_to_ids self toks) (\<lambda>ids.
     then_run (item ids 0) (\<lambda>x.
     then_run (item probs 0) (\<lambda>a.
     then_run (item a target_idx) (\<lambda>b. item b x)))))"

definition single_scores :: "'f fitbert \<Rightarrow> string \<Rightarrow> string list \<Rightarrow> 'f list run" where
  "single_scores self masked_sent words =
     (case split_sep masked_sent (mask_token self) of
        Inl e \<Rightarrow> fail_with e
      | Inr [pre, post] \<Rightarrow>
          then_run (call_tokenize self pre) (\<lambda>pre_tokens.
          then_run (call_tokenize self post) (\<lambda>post_tokens.
          let target_idx = length ([''[CLS]''] @ pre_tokens);
              tokens = [''[CLS]''] @ pre_tokens @ [''[MASK]''] @ post_tokens @ [''[SEP]'']
          in
          then_run (convert_tokens_to_ids self tokens) (\<lambda>input_ids.
          then_run (call_bert self [input_ids]) (\<lambda>preds.
          traverse (word_score self (softmax self preds) target_idx) words))))
      | Inr _ \<Rightarrow> fail_with ValueError)"

definition rank_single :: "('f::linorder) fitbert \<Rightarrow> string \<Rightarrow> string list \<Rightarrow> string list run" where
  "rank_single self masked_sent words =
     then_run (single_scores self masked_sent words) (\<lambda>scores.
     ret (map snd (sorted_desc (zip scores words))))"

definition multi_scores :: "'f fitbert \<Rightarrow> string \<Rightarrow> string list \<Rightarrow> 'f list run" where
  "multi_scores self masked_sent options =
     traverse (\<lambda>x. get_sentence_probability self (replace masked_sent (mask_token self) x))
       options"

definition rank_multi :: "('f::linorder) fitbert \<Rightarrow> string \<Rightarrow> string list \<Rightarrow> string list run" where
  "rank_multi self masked_sent options =
     then_run (multi_scores self masked_sent options) (\<lambda>scores.
     ret (map snd (sorted_desc (zip scores options))))"

section \<open>The option simplifier and the pathway test\<close>

text \<open>\<open>is_multi\<close>: some option does not split into exactly one word.\<close>

definition is_multi :: "string list \<Rightarrow> bool" where
  "is_multi options = (filter (\<lambda>x. length (split_ws x) \<noteq> 1) options \<noteq> [])"

text \<open>The words every row of \<open>xss\<close> starts with: the leading columns with one distinct value.\<close>

definition common_start :: "string list list \<Rightarrow> string list" where
  "common_start xss =
     map hd (takeWhile (\<lambda>x. length (distinct_t x) = 1) (zip_star xss))"

text \<open>
  \<open>simplify_options\<close> returns the simplified options, the sentence, \<open>start_words\<close> and
  \<open>end_words\<close>.
\<close>

definition simplify_options ::
  "'f fitbert \<Rightarrow> string \<Rightarrow> string list \<Rightarrow> string list \<times> string \<times> string \<times> string" where
  "simplify_options self sent options =
     (let options_split = map split_ws options;
          start = common_start options_split;
          options_split_reversed = map (\<lambda>x. rev (drop (length start) x)) options_split;
          end = common_start options_split_reversed;
          start_words = make_string '' '' start;
          end_words = make_string '' '' (rev end);
          options' = map (\<lambda>x. strip (make_string '' ''
                       (drop (length start) (take (length x - length end) x)))) options_split;
          sub = strip (make_string '' '' [start_words, mask_token self, end_words])
      in (options', replace sent (mask_token self) sub, start_words, end_words))"

section \<open>Ranking and filling the blank\<close>

definition rank :: "('f::linorder) fitbert \<Rightarrow> string \<Rightarrow> string list \<Rightarrow> string list run" where
  "rank self sent options =
     (let options = distinct_t options in
      if length options = 1 then ret options
      else
        (case simplify_options self sent options of
           (options', sent', start_words, end_words) \<Rightarrow>
             then_run (if is_multi options' then rank_multi self sent' options'
                       else rank_single self sent' options') (\<lambda>ranked.
             ret (map (\<lambda>x. strip (make_string '' '' [start_words, x, end_words])) ranked))))"

definition fitb :: "('f::linorder) fitbert \<Rightarrow> string \<Rightarrow> string list \<Rightarrow> string run" where
  "fitb self sent options =
     then_run (rank self sent options) (\<lambda>ranked.
     case ranked of
       [] \<Rightarrow> fail_with IndexError
     | best_word # _ \<Rightarrow> ret (replace sent (mask_token self) best_word))"

section \<open>Vocabulary of the statements\<close>

text \<open>Word lists as \<open>split_ws\<close> produces them: no word is empty or holds whitespace.\<close>

definition tokens_ok :: "string list \<Rightarrow> bool" where
  "tokens_ok ts = (\<forall>t\<in>set ts. t \<noteq> [] \<and> (\<forall>c\<in>set t. \<not> isspace c))"

text \<open>
  The documented reading of \<open>is_multi\<close>: some option has more than one word.
\<close>

definition spec_is_multi :: "string list \<Rightarrow> bool" where
  "spec_is_multi options = list_ex (\<lambda>x. 1 < length (split_ws x)) options"

text \<open>
  The order of two scored options with their positions in the input: the higher score
  first, and of two equal scores the earlier position first.
\<close>

definition before :: "('k::linorder) \<times> nat \<Rightarrow> 'k \<times> nat \<Rightarrow> bool" where
  "before p q \<longleftrightarrow> fst q < fst p \<or> (fst p = fst q \<and> snd p < snd q)"

text \<open>
  An object to run the functions on: the placeholder is the default one, the tokenizer
  splits at whitespace, the id of a token is its length, the model scores all of eight
  vocabulary entries alike at every position, and the arithmetic is that of the real
  numbers.
\<close>

definition uniform_model :: "real fitbert" where
  "uniform_model =
     \<lparr> mask_token = ''***mask***'',
       tokenize = split_ws,
       vocab = (\<lambda>t. Some (length t)),
       bert = (\<lambda>tens. Some (map (map (\<lambda>_. [0, 0, 0, 0, 0, 0, 0, 0])) tens)),
       float_exp = exp,
       float_sum = sum_list,
       float_div = (\<lambda>x y. x / y),
       float_mul = (\<lambda>x y. x * y),
       float_one = 1 \<rparr>"

section \<open>Properties of the string operations\<close>

lemma isspace_space [simp]: "isspace CHR '' ''"
  by (simp add: isspace_def whitespace_chars_def)

lemma tokens_ok_Nil [simp]: "tokens_ok []"
  by (simp add: tokens_ok_def)

lemma tokens_ok_Cons [simp]:
  "tokens_ok (t # ts) = (t \<noteq> [] \<and> (\<forall>c\<in>set t. \<not> isspace c) \<and> tokens_ok ts)"
  by (auto simp: tokens_ok_def)

lemma split_acc_ok:
  "\<forall>c\<in>set acc. \<not> isspace c \<Longrightarrow> tokens_ok (split_acc acc s)"
  by (induction s arbitrary: acc) simp_all

lemma split_ws_ok: "tokens_ok (split_ws s)"
  by (simp add: split_ws_def split_acc_ok)

lemma split_acc_word:
  "\<forall>c\<in>set t. \<not> isspace c \<Longrightarrow> split_acc acc (t @ s) = split_acc (rev t @ acc) s"
  by (induction t arbitrary: acc) auto

lemma split_ws_make_string:
  "tokens_ok ts \<Longrightarrow> split_ws (make_string '' '' ts) = ts"
proof (induction "'' ''" ts rule: make_string.induct)
  case 1
  then show ?case by (simp add: split_ws_def)
next
  case (2 x)
  then show ?case
    using split_acc_word [of x "[]" "[]"] by (simp add: split_ws_def tokens_ok_def)
next
  case (3 x y ys)
  then have x: "\<forall>c\<in>set x. \<not> isspace c" "x \<noteq> []" and rest: "tokens_ok (y # ys)"
    by (auto simp: tokens_ok_def)
  have "split_ws (make_string '' '' (x # y # ys))
      = split_acc (rev x) (CHR '' '' # make_string '' '' (y # ys))"
    using split_acc_word [OF x(1), of "[]"] by (simp add: split_ws_def)
  also have "\<dots> = x # split_ws (make_string '' '' (y # ys))"
    using x(2) by (simp add: split_ws_def)
  finally show ?case using 3 rest by simp
qed

lemma strip_id:
  "s = [] \<or> (\<not> isspace (hd s) \<and> \<not> isspace (last s)) \<Longrightarrow> strip s = s"
  by (cases s) (auto simp: strip_def dropWhile_eq_self_iff last_rev hd_rev split: if_splits)

lemma make_string_ends:
  "tokens_ok ts \<Longrightarrow> ts \<noteq> [] \<Longrightarrow>
     make_string '' '' ts \<noteq> [] \<and> \<not> isspace (hd (make_string '' '' ts))
     \<and> \<not> isspace (last (make_string '' '' ts))"
proof (induction "'' ''" ts rule: make_string.induct)
  case 1
  then show ?case by simp
next
  case (2 x)
  then show ?case using hd_in_set [of x] last_in_set [of x] by auto
next
  case (3 x y ys)
  then have "tokens_ok (y # ys)" and x: "x \<noteq> []" "\<forall>c\<in>set x. \<not> isspace c"
    by (auto simp: tokens_ok_def)
  with 3 have ih: "make_string '' '' (y # ys) \<noteq> []"
     "\<not> isspace (last (make_string '' '' (y # ys)))" by auto
  from x obtain c cs where "x = c # cs" "\<not> isspace c" by (cases x) auto
  then show ?case using ih by simp
qed

lemma strip_make_string:
  "tokens_ok ts \<Longrightarrow> strip (make_string '' '' ts) = make_string '' '' ts"
  by (cases "ts = []") (auto intro!: strip_id dest: make_string_ends)

section \<open>Properties of the sequence operations\<close>

lemma set_distinct_seen: "set (distinct_seen seen xs) = set xs - set seen"
  by (induction xs arbitrary: seen) auto

lemma distinct_distinct_seen: "distinct (distinct_seen seen xs)"
  by (induction xs arbitrary: seen) (auto simp: set_distinct_seen)

lemma set_distinct_t: "set (distinct_t xs) = set xs"
  by (simp add: distinct_t_def set_distinct_seen)

lemma distinct_distinct_t: "distinct (distinct_t xs)"
  by (simp add: distinct_t_def distinct_distinct_seen)

lemma distinct_seen_first:
  "distinct_seen seen xs =
     map (\<lambda>i. xs ! i)
       (filter (\<lambda>i. xs ! i \<notin> set seen \<union> set (take i xs)) [0..<length xs])"
proof (induction xs arbitrary: seen)
  case Nil
  then show ?case by simp
next
  case (Cons x xs)
  let ?P = "\<lambda>i. (x # xs) ! i \<notin> set seen \<union> set (take i (x # xs))"
  have upt: "[0..<length (x # xs)] = 0 # map Suc [0..<length xs]"
    by (simp add: upt_conv_Cons map_Suc_upt del: upt_Suc)
  have "filter ?P (map Suc [0..<length xs])
      = map Suc (filter (\<lambda>i. xs ! i \<notin> set (x # seen) \<union> set (take i xs)) [0..<length xs])"
    unfolding filter_map comp_def by (rule arg_cong [where f = "map Suc"], rule filter_cong) auto
  then have tail: "map (\<lambda>i. (x # xs) ! i) (filter ?P (map Suc [0..<length xs]))
      = map (\<lambda>i. xs ! i)
          (filter (\<lambda>i. xs ! i \<notin> set (x # seen) \<union> set (take i xs)) [0..<length xs])"
    by (simp add: comp_def del: upt_Suc)
  show ?case
  proof (cases "x \<in> set seen")
    case True
    then have "set (x # seen) = set seen" by auto
    then have "distinct_seen seen xs
      = map (\<lambda>i. xs ! i)
          (filter (\<lambda>i. xs ! i \<notin> set (x # seen) \<union> set (take i xs)) [0..<length xs])"
      using Cons.IH [of seen] by simp
    then show ?thesis
      unfolding upt using True tail by simp
  next
    case False
    then show ?thesis
      unfolding upt using tail Cons.IH [of "x # seen"] by simp
  qed
qed

lemma distinct_t_first:
  "distinct_t xs =
     map (\<lambda>i. xs ! i) (filter (\<lambda>i. xs ! i \<notin> set (take i xs)) [0..<length xs])"
  by (simp add: distinct_t_def distinct_seen_first)

lemma distinct_t_id: "distinct xs \<Longrightarrow> distinct_t xs = xs"
proof -
  have "distinct xs \<Longrightarrow> set seen \<inter> set xs = {} \<Longrightarrow> distinct_seen seen xs = xs" for seen
    by (induction xs arbitrary: seen) auto
  then show "distinct xs \<Longrightarrow> distinct_t xs = xs"
    by (simp add: distinct_t_def)
qed

lemma length_distinct_t: "length (distinct_t xs) = card (set xs)"
  using distinct_card [OF distinct_distinct_t, of xs] by (simp add: set_distinct_t)

lemma one_distinct_iff: "length (distinct_t xs) = 1 \<longleftrightarrow> (\<exists>a. set xs = {a})"
  by (simp add: length_distinct_t card_1_singleton_iff)

lemma zip_star_empty: "xss = [] \<or> [] \<in> set xss \<Longrightarrow> zip_star xss = []"
  by (subst zip_star.simps) simp

lemma zip_star_step:
  "xss \<noteq> [] \<Longrightarrow> [] \<notin> set xss \<Longrightarrow> zip_star xss = map hd xss # zip_star (map tl xss)"
  by (subst zip_star.simps) simp

lemma common_start_empty: "xss = [] \<or> [] \<in> set xss \<Longrightarrow> common_start xss = []"
  by (simp add: common_start_def zip_star_empty)

lemma common_start_same:
  assumes "xss \<noteq> []" "[] \<notin> set xss" "\<forall>x\<in>set xss. hd x = a"
  shows "common_start xss = a # common_start (map tl xss)"
proof -
  have "set (map hd xss) = {a}" using assms(1,3) by (cases xss) auto
  then have "length (distinct_t (map hd xss)) = 1"
    unfolding one_distinct_iff by blast
  moreover have "hd (map hd xss) = a" using assms(1,3) by (cases xss) auto
  ultimately show ?thesis
    unfolding common_start_def zip_star_step [OF assms(1,2)] by simp
qed

lemma common_start_differ:
  assumes "x \<in> set xss" "y \<in> set xss" "hd x \<noteq> hd y"
  shows "common_start xss = []"
proof (cases "[] \<in> set xss")
  case True
  then show ?thesis by (simp add: common_start_empty)
next
  case False
  have ne: "xss \<noteq> []" using assms(1) by auto
  have "\<not> (\<exists>a. set (map hd xss) = {a})"
  proof
    assume "\<exists>a. set (map hd xss) = {a}"
    then obtain a where a: "set (map hd xss) = {a}" ..
    have "hd x \<in> set (map hd xss)" "hd y \<in> set (map hd xss)" using assms(1,2) by auto
    with a have "hd x = a" "hd y = a" by blast+
    with assms(3) show False by simp
  qed
  then have "length (distinct_t (map hd xss)) \<noteq> 1"
    unfolding one_distinct_iff .
  then show ?thesis
    unfolding common_start_def zip_star_step [OF ne False] by simp
qed

lemma common_start_cases:
  "common_start xss = [] \<or>
   (xss \<noteq> [] \<and> [] \<notin> set xss \<and>
    (\<exists>a. (\<forall>x\<in>set xss. hd x = a) \<and> common_start xss = a # common_start (map tl xss)))"
proof (cases "xss = [] \<or> [] \<in> set xss")
  case True
  then show ?thesis by (simp add: common_start_empty)
next
  case False
  then have ne: "xss \<noteq> []" "[] \<notin> set xss" by blast+
  then obtain xs rest where xss: "xss = xs # rest" by (cases xss) blast+
  define a where "a = hd xs"
  show ?thesis
  proof (cases "\<forall>x\<in>set xss. hd x = a")
    case True
    then have "common_start xss = a # common_start (map tl xss)"
      by (rule common_start_same [OF ne])
    with True ne show ?thesis by blast
  next
    case differ: False
    then obtain y where y: "y \<in> set xss" "hd y \<noteq> a" by blast
    have "xs \<in> set xss" unfolding xss by simp
    then have "common_start xss = []"
      using y unfolding a_def by (rule common_start_differ [OF _ _ not_sym])
    then show ?thesis ..
  qed
qed

lemma common_start_prefix:
  "x \<in> set xss \<Longrightarrow> prefix (common_start xss) x"
proof (induction xss arbitrary: x rule: zip_star.induct)
  case (1 xss)
  from common_start_cases [of xss] show ?case
  proof (elim disjE conjE exE)
    assume "common_start xss = []"
    then show ?thesis by simp
  next
    fix a
    assume ne: "xss \<noteq> []" "[] \<notin> set xss"
      and a: "\<forall>x\<in>set xss. hd x = a"
      and c: "common_start xss = a # common_start (map tl xss)"
    have ne': "\<not> (xss = [] \<or> [] \<in> set xss)" using ne by blast
    from ne 1(2) have "x \<noteq> []" by blast
    moreover have "hd x = a" using a 1(2) by blast
    ultimately have x: "x = a # tl x" by (cases x) auto
    have "tl x \<in> set (map tl xss)" using 1(2) by auto
    then have ih: "prefix (common_start (map tl xss)) (tl x)"
      by (rule 1(1) [OF ne'])
    show ?thesis unfolding c by (subst x) (simp add: ih)
  qed
qed

lemma common_start_longest:
  "xss \<noteq> [] \<Longrightarrow> \<forall>x\<in>set xss. prefix p x \<Longrightarrow> prefix p (common_start xss)"
proof (induction xss arbitrary: p rule: zip_star.induct)
  case (1 xss)
  show ?case
  proof (cases p)
    case Nil
    then show ?thesis by simp
  next
    case (Cons a q)
    have each: "x \<noteq> [] \<and> hd x = a \<and> prefix q (tl x)" if "x \<in> set xss" for x
    proof (cases x)
      case Nil
      then show ?thesis using 1(3) Cons that by auto
    next
      case (Cons b t)
      have "prefix (a # q) (b # t)" using 1(3) \<open>p = a # q\<close> that Cons by blast
      then show ?thesis using Cons by simp
    qed
    then have ne: "\<not> (xss = [] \<or> [] \<in> set xss)" using 1(2) by blast
    have "\<forall>y\<in>set (map tl xss). prefix q y" using each by simp
    moreover have "map tl xss \<noteq> []" using 1(2) by simp
    ultimately have ih: "prefix q (common_start (map tl xss))"
      using 1(1) [OF ne, of q] by blast
    have "common_start xss = a # common_start (map tl xss)"
      using ne each by (intro common_start_same) blast+
    then show ?thesis
      using Cons ih by simp
  qed
qed

section \<open>The pathway test\<close>

text \<open>
  Claim C7, as amended. \<open>is_multi\<close> is true exactly when some option does not split
  into one word: it has more than one word, or it has none (the empty string, or
  whitespace only).
\<close>

theorem is_multi_iff:
  "is_multi options \<longleftrightarrow> (\<exists>x\<in>set options. split_ws x = [] \<or> 1 < length (split_ws x))"
proof -
  have "is_multi options \<longleftrightarrow> (\<exists>x\<in>set options. length (split_ws x) \<noteq> 1)"
    by (simp add: is_multi_def filter_empty_conv)
  moreover have "length ts \<noteq> 1 \<longleftrightarrow> ts = [] \<or> 1 < length ts" for ts :: "string list"
    by (cases ts) auto
  ultimately show ?thesis by simp
qed

theorem is_multi_iff_witness:
  "is_multi [''run'', ''to go'']
   \<and> (\<exists>x\<in>set [''run'', ''to go'']. split_ws x = [] \<or> 1 < length (split_ws x))"
  using is_multi_iff [of "[''run'', ''to go'']"]
  by (simp add: is_multi_def split_ws_def isspace_def whitespace_chars_def)

text \<open>
  Claim C7 as stated fails on the option list that holds only the empty string: no
  option has more than one word, and \<open>is_multi\<close> is true.
\<close>

theorem is_multi_empty_option_counterexample:
  "is_multi [[]] \<and> \<not> spec_is_multi [[]]"
  by (simp add: is_multi_def spec_is_multi_def split_ws_def)

section \<open>The single option\<close>

text \<open>
  Claim C5. When the deduplicated option list is the single option \<open>w\<close>, \<open>rank\<close>
  returns \<open>[w]\<close> and has called neither the tokenizer nor the model, whatever the
  sentence is.
\<close>

theorem rank_single_option:
  "distinct_t options = [w] \<Longrightarrow> rank self sent options = (Inr [w], [])"
  by (simp add: rank_def ret_def)

theorem rank_single_option_witness:
  "distinct_t [''run'', ''run''] = [''run'']
   \<and> rank uniform_model ''She likes to ***mask***.'' [''run'', ''run''] = (Inr [''run''], [])"
proof -
  have d: "distinct_t [''run'', ''run''] = [''run'']" by (simp add: distinct_t_def)
  show ?thesis using d rank_single_option [OF d] by simp
qed

section \<open>The option simplifier\<close>

lemma tokens_ok_subset: "tokens_ok us \<Longrightarrow> set ts \<subseteq> set us \<Longrightarrow> tokens_ok ts"
  by (auto simp: tokens_ok_def)

lemma tokens_ok_common_start:
  assumes "\<forall>x\<in>set xss. tokens_ok x"
  shows "tokens_ok (common_start xss)"
proof (cases xss)
  case Nil
  then show ?thesis by (simp add: common_start_empty)
next
  case (Cons x rest)
  then have "prefix (common_start xss) x" by (simp add: common_start_prefix)
  then have "set (common_start xss) \<subseteq> set x" by (rule set_mono_prefix)
  moreover have "tokens_ok x" using assms Cons by simp
  ultimately show ?thesis by (rule tokens_ok_subset [rotated])
qed

text \<open>The three parts of an option's word list.\<close>

lemma option_parts:
  assumes x: "x \<in> set xss"
  defines "start \<equiv> common_start xss"
  defines "end \<equiv> common_start (map (\<lambda>x. rev (drop (length start) x)) xss)"
  shows "x = start @ drop (length start) (take (length x - length end) x) @ rev end"
proof -
  have p: "prefix start x" unfolding start_def using x by (rule common_start_prefix)
  then obtain r where r: "x = start @ r" by (auto simp: prefix_def)
  have "rev (drop (length start) x) \<in> set (map (\<lambda>x. rev (drop (length start) x)) xss)"
    using x by auto
  then have "prefix end (rev (drop (length start) x))"
    unfolding end_def by (rule common_start_prefix)
  then have "prefix end (rev r)" using r by simp
  then obtain m where m: "rev r = end @ m" by (auto simp: prefix_def)
  then have r': "r = rev m @ rev end" by (metis rev_append rev_rev_ident)
  have "drop (length start) (take (length x - length end) x) = rev m"
    unfolding r r' by simp
  then show ?thesis using r r' by simp
qed

lemma simplify_options_eq:
  fixes self sent options
  defines "toks \<equiv> map split_ws options"
  defines "start \<equiv> common_start toks"
  defines "end \<equiv> common_start (map (\<lambda>x. rev (drop (length start) x)) toks)"
  shows "simplify_options self sent options =
     (map (\<lambda>x. make_string '' '' (drop (length start) (take (length x - length end) x))) toks,
      replace sent (mask_token self)
        (strip (make_string '' ''
           [make_string '' '' start, mask_token self, make_string '' '' (rev end)])),
      make_string '' '' start,
      make_string '' '' (rev end))"
proof -
  have "strip (make_string '' '' (drop (length start) (take (length x - length end) x)))
      = make_string '' '' (drop (length start) (take (length x - length end) x))"
    if "x \<in> set toks" for x
  proof -
    have "tokens_ok x" using that unfolding toks_def by (auto simp: split_ws_ok)
    moreover have "set (drop (length start) (take (length x - length end) x)) \<subseteq> set x"
      by (meson set_drop_subset set_take_subset subset_trans)
    ultimately have "tokens_ok (drop (length start) (take (length x - length end) x))"
      by (rule tokens_ok_subset)
    then show ?thesis by (rule strip_make_string)
  qed
  then show ?thesis
    unfolding simplify_options_def Let_def toks_def [symmetric] start_def [symmetric]
      end_def [symmetric]
    by simp
qed

lemma simplify_options_words:
  assumes "simplify_options self sent options = (options', sent', start_words, end_words)"
  shows "split_ws start_words = common_start (map split_ws options)"
    and "split_ws end_words =
           rev (common_start (map (\<lambda>x. rev (drop (length (split_ws start_words)) x))
                                  (map split_ws options)))"
    and "length options' = length options"
    and "i < length options \<Longrightarrow>
           split_ws (options' ! i) =
             drop (length (split_ws start_words))
               (take (length (split_ws (options ! i)) - length (split_ws end_words))
                  (split_ws (options ! i)))"
    and "i < length options \<Longrightarrow> options' ! i = make_string '' '' (split_ws (options' ! i))"
    and "i < length options \<Longrightarrow>
           split_ws (options ! i) =
             split_ws start_words @ split_ws (options' ! i) @ split_ws end_words"
    and "start_words = make_string '' '' (split_ws start_words)"
    and "end_words = make_string '' '' (split_ws end_words)"
    and "sent' = replace sent (mask_token self)
                  (strip (make_string '' '' [start_words, mask_token self, end_words]))"
proof -
  define toks where "toks = map split_ws options"
  define start where "start = common_start toks"
  define "end" where "end = common_start (map (\<lambda>x. rev (drop (length start) x)) toks)"
  have all_ok: "\<forall>x\<in>set toks. tokens_ok x"
    unfolding toks_def by (auto simp: split_ws_ok)
  have ok_start: "tokens_ok start"
    unfolding start_def using all_ok by (rule tokens_ok_common_start)
  have "\<forall>x\<in>set (map (\<lambda>x. rev (drop (length start) x)) toks). tokens_ok x"
  proof
    fix y assume "y \<in> set (map (\<lambda>x. rev (drop (length start) x)) toks)"
    then obtain x where x: "x \<in> set toks" "y = rev (drop (length start) x)" by auto
    have "set y \<subseteq> set x" unfolding x(2) by (simp add: set_drop_subset)
    with all_ok x(1) show "tokens_ok y" by (blast intro: tokens_ok_subset)
  qed
  then have "tokens_ok end"
    unfolding end_def by (rule tokens_ok_common_start)
  then have ok_end: "tokens_ok (rev end)"
    by (rule tokens_ok_subset) simp
  note eq = simplify_options_eq [of self sent options, folded toks_def, folded start_def,
      folded end_def]
  from assms have "(map (\<lambda>x. make_string '' ''
           (drop (length start) (take (length x - length end) x))) toks,
      replace sent (mask_token self) (strip (make_string '' ''
           [make_string '' '' start, mask_token self, make_string '' '' (rev end)])),
      make_string '' '' start, make_string '' '' (rev end))
      = (options', sent', start_words, end_words)"
    unfolding eq .
  then have
    o': "options' = map (\<lambda>x. make_string '' ''
           (drop (length start) (take (length x - length end) x))) toks"
    and s': "sent' = replace sent (mask_token self) (strip (make_string '' ''
           [make_string '' '' start, mask_token self, make_string '' '' (rev end)]))"
    and sw: "start_words = make_string '' '' start"
    and ew: "end_words = make_string '' '' (rev end)"
    by (auto simp only: prod.inject)
  have ssw: "split_ws start_words = start"
    unfolding sw using ok_start by (rule split_ws_make_string)
  have sew: "split_ws end_words = rev end"
    unfolding ew using ok_end by (rule split_ws_make_string)
  show "split_ws start_words = common_start (map split_ws options)"
    using ssw by (simp add: start_def toks_def)
  show "split_ws end_words =
           rev (common_start (map (\<lambda>x. rev (drop (length (split_ws start_words)) x))
                                  (map split_ws options)))"
    by (simp only: ssw sew end_def toks_def)
  show "length options' = length options"
    unfolding o' toks_def by simp
  show "start_words = make_string '' '' (split_ws start_words)"
    by (subst ssw) (rule sw)
  show "end_words = make_string '' '' (split_ws end_words)"
    by (subst sew) (rule ew)
  show "sent' = replace sent (mask_token self)
                  (strip (make_string '' '' [start_words, mask_token self, end_words]))"
  proof -
    have "make_string '' '' [start_words, mask_token self, end_words]
      = make_string '' '' [make_string '' '' start, mask_token self, make_string '' '' (rev end)]"
      using sw ew by (simp only:)
    then show ?thesis using s' by (simp only:)
  qed
  {
    assume i: "i < length options"
    define x where "x = split_ws (options ! i)"
    have xin: "x \<in> set toks" unfolding x_def toks_def using i by simp
    have oi: "options' ! i =
        make_string '' '' (drop (length start) (take (length x - length end) x))"
      unfolding o' toks_def x_def using i by simp
    have "tokens_ok x" using all_ok xin by blast
    moreover have "set (drop (length start) (take (length x - length end) x)) \<subseteq> set x"
      by (meson set_drop_subset set_take_subset subset_trans)
    ultimately have "tokens_ok (drop (length start) (take (length x - length end) x))"
      by (rule tokens_ok_subset)
    then have mid: "split_ws (options' ! i) =
        drop (length start) (take (length x - length end) x)"
      unfolding oi by (rule split_ws_make_string)
    show "split_ws (options' ! i) =
             drop (length (split_ws start_words))
               (take (length (split_ws (options ! i)) - length (split_ws end_words))
                  (split_ws (options ! i)))"
      by (simp only: ssw sew mid x_def length_rev)
    show "options' ! i = make_string '' '' (split_ws (options' ! i))"
      by (subst mid) (rule oi)
    have "x = start @ drop (length start) (take (length x - length end) x) @ rev end"
      using option_parts [OF xin] unfolding start_def end_def .
    then show "split_ws (options ! i) =
             split_ws start_words @ split_ws (options' ! i) @ split_ws end_words"
      by (simp only: ssw sew mid x_def [symmetric])
  }
qed

lemma simplify_options_mask:
  "mask_token self = mask_token self' \<Longrightarrow>
     simplify_options self sent options = simplify_options self' sent options"
  by (simp add: simplify_options_def)

text \<open>The simplifier reads the placeholder of the object and nothing else.\<close>

lemma simplify_options_plain:
  "simplify_options self sent options =
     simplify_options
       \<lparr> mask_token = mask_token self, tokenize = (\<lambda>s. []), vocab = (\<lambda>t. None),
         bert = (\<lambda>tens. None), float_exp = (\<lambda>x. x), float_sum = (\<lambda>xs. ()),
         float_div = (\<lambda>x y. ()), float_mul = (\<lambda>x y. ()), float_one = () \<rparr>
       sent options"
  by (rule simplify_options_mask) simp

lemma mask_uniform_model: "mask_token uniform_model = ''***mask***''"
  by (simp add: uniform_model_def)

lemma eat_drink:
  "simplify_options uniform_model ''I want ***mask***.'' [''to eat'', ''to drink'']
     = ([''eat'', ''drink''], ''I want to ***mask***.'', ''to'', [])"
  unfolding simplify_options_plain [of uniform_model] mask_uniform_model by code_simp

lemma red_blue:
  "simplify_options uniform_model ''This is ***mask***.'' [''a red car'', ''a blue car'']
     = ([''red'', ''blue''], ''This is a ***mask*** car.'', ''a'', ''car'')"
  unfolding simplify_options_plain [of uniform_model] mask_uniform_model by code_simp

lemma simplify_options_affixes:
  assumes ne: "options \<noteq> []"
    and s: "simplify_options self sent options = (options', sent', start_words, end_words)"
  shows "\<forall>x\<in>set options. prefix (split_ws start_words) (split_ws x)"
    and "\<forall>p. (\<forall>x\<in>set options. prefix p (split_ws x)) \<longrightarrow> prefix p (split_ws start_words)"
    and "\<forall>x\<in>set options.
           suffix (split_ws end_words) (drop (length (split_ws start_words)) (split_ws x))"
    and "\<forall>q. (\<forall>x\<in>set options.
                 suffix q (drop (length (split_ws start_words)) (split_ws x)))
              \<longrightarrow> suffix q (split_ws end_words)"
proof -
  let ?toks = "map split_ws options"
  let ?n = "length (split_ws start_words)"
  let ?rows = "map (\<lambda>x. rev (drop ?n x)) ?toks"
  note w = simplify_options_words [OF s]
  have tne: "?toks \<noteq> []" "?rows \<noteq> []" using ne by simp_all
  show "\<forall>x\<in>set options. prefix (split_ws start_words) (split_ws x)"
    unfolding w(1) by (auto intro: common_start_prefix)
  show "\<forall>p. (\<forall>x\<in>set options. prefix p (split_ws x)) \<longrightarrow> prefix p (split_ws start_words)"
  proof (intro allI impI)
    fix p assume "\<forall>x\<in>set options. prefix p (split_ws x)"
    then have "\<forall>x\<in>set ?toks. prefix p x" by simp
    then have "prefix p (common_start ?toks)" by (rule common_start_longest [OF tne(1)])
    then show "prefix p (split_ws start_words)" by (simp only: w(1))
  qed
  have e: "split_ws end_words = rev (common_start ?rows)" by (rule w(2))
  show "\<forall>x\<in>set options. suffix (split_ws end_words) (drop ?n (split_ws x))"
  proof
    fix x assume "x \<in> set options"
    then have "rev (drop ?n (split_ws x)) \<in> set ?rows" by auto
    then have "prefix (common_start ?rows) (rev (drop ?n (split_ws x)))"
      by (rule common_start_prefix)
    then show "suffix (split_ws end_words) (drop ?n (split_ws x))"
      unfolding e by (simp add: suffix_to_prefix)
  qed
  show "\<forall>q. (\<forall>x\<in>set options. suffix q (drop ?n (split_ws x))) \<longrightarrow> suffix q (split_ws end_words)"
  proof (intro allI impI)
    fix q assume q: "\<forall>x\<in>set options. suffix q (drop ?n (split_ws x))"
    have "\<forall>y\<in>set ?rows. prefix (rev q) y"
      using q by (auto simp: suffix_to_prefix)
    then have "prefix (rev q) (common_start ?rows)" by (rule common_start_longest [OF tne(2)])
    then show "suffix q (split_ws end_words)"
      unfolding e by (simp add: suffix_to_prefix)
  qed
qed

text \<open>
  Claim C10. \<open>simplify_options\<close> returns as many options as it is given, and the
  option at position \<open>i\<close> comes from the input option at position \<open>i\<close>: the words of
  the input option are the start words, the words of the simplified option and the end
  words, and the simplified option is its words joined by single spaces.
\<close>

theorem simplify_options_keeps_positions:
  "simplify_options self sent options = (options', sent', start_words, end_words) \<Longrightarrow>
     length options' = length options \<and>
     (\<forall>i<length options.
        split_ws (options ! i)
          = split_ws start_words @ split_ws (options' ! i) @ split_ws end_words
        \<and> options' ! i = make_string '' '' (split_ws (options' ! i)))"
  using simplify_options_words(3,5,6) [of self sent options options' sent' start_words end_words]
  by blast

theorem simplify_options_keeps_positions_witness:
  "simplify_options uniform_model ''This is ***mask***.'' [''a red car'', ''a blue car'']
     = ([''red'', ''blue''], ''This is a ***mask*** car.'', ''a'', ''car'')
   \<and> length [''red'', ''blue''] = length [''a red car'', ''a blue car'']
   \<and> split_ws ''a blue car'' = split_ws ''a'' @ split_ws ''blue'' @ split_ws ''car''
   \<and> ''blue'' = make_string '' '' (split_ws ''blue'')"
proof -
  note t = simplify_options_keeps_positions [OF red_blue]
  from t have len: "length [''red'', ''blue''] = length [''a red car'', ''a blue car'']"
    by (rule conjunct1)
  from t have "1 < length [''a red car'', ''a blue car''] \<longrightarrow>
      split_ws ([''a red car'', ''a blue car''] ! 1)
          = split_ws ''a'' @ split_ws ([''red'', ''blue''] ! 1) @ split_ws ''car''
      \<and> [''red'', ''blue''] ! 1 = make_string '' '' (split_ws ([''red'', ''blue''] ! 1))"
    by (elim conjE allE)
  then have "split_ws ''a blue car'' = split_ws ''a'' @ split_ws ''blue'' @ split_ws ''car''
      \<and> ''blue'' = make_string '' '' (split_ws ''blue'')"
    by simp
  with red_blue len show ?thesis by (simp only: simp_thms)
qed

text \<open>
  Claim C3. For the options \<open>to eat\<close> and \<open>to drink\<close> in \<open>I want ***mask***.\<close> the
  simplifier returns the options \<open>eat\<close> and \<open>drink\<close>, the sentence
  \<open>I want to ***mask***.\<close>, the start words \<open>to\<close> and no end words. In general, for a
  non-empty option list, the start words are the longest word list every option starts
  with; the end words are the longest word list every option ends with once the start
  words are taken off; both are joined by single spaces; every option's words are the
  start words, the simplified option's words and the end words; and the sentence has
  its placeholder replaced by the start words, the placeholder and the end words,
  joined by spaces and stripped.
\<close>

theorem simplify_options_strips_common_affixes:
  "(mask_token self = ''***mask***'' \<longrightarrow>
      simplify_options self ''I want ***mask***.'' [''to eat'', ''to drink'']
        = ([''eat'', ''drink''], ''I want to ***mask***.'', ''to'', ''''))
   \<and> (options \<noteq> [] \<and>
        simplify_options self' sent options = (options', sent', start_words, end_words) \<longrightarrow>
        (\<forall>x\<in>set options. prefix (split_ws start_words) (split_ws x)) \<and>
        (\<forall>p. (\<forall>x\<in>set options. prefix p (split_ws x)) \<longrightarrow> prefix p (split_ws start_words)) \<and>
        (\<forall>x\<in>set options.
           suffix (split_ws end_words) (drop (length (split_ws start_words)) (split_ws x))) \<and>
        (\<forall>q. (\<forall>x\<in>set options.
                 suffix q (drop (length (split_ws start_words)) (split_ws x)))
              \<longrightarrow> suffix q (split_ws end_words)) \<and>
        start_words = make_string '' '' (split_ws start_words) \<and>
        end_words = make_string '' '' (split_ws end_words) \<and>
        map split_ws options
          = map (\<lambda>x. split_ws start_words @ split_ws x @ split_ws end_words) options' \<and>
        (\<forall>x\<in>set options'. x = make_string '' '' (split_ws x)) \<and>
        sent' = replace sent (mask_token self')
                  (strip (make_string '' '' [start_words, mask_token self', end_words])))"
proof (intro conjI impI)
  assume "mask_token self = ''***mask***''"
  then have "mask_token self = mask_token uniform_model" by (simp add: uniform_model_def)
  then have "simplify_options self ''I want ***mask***.'' [''to eat'', ''to drink'']
        = simplify_options uniform_model ''I want ***mask***.'' [''to eat'', ''to drink'']"
    by (rule simplify_options_mask)
  then show "simplify_options self ''I want ***mask***.'' [''to eat'', ''to drink'']
        = ([''eat'', ''drink''], ''I want to ***mask***.'', ''to'', '''')"
    by (simp only: eat_drink)
next
  assume a: "options \<noteq> [] \<and>
        simplify_options self' sent options = (options', sent', start_words, end_words)"
  then have ne: "options \<noteq> []"
    and s: "simplify_options self' sent options = (options', sent', start_words, end_words)"
    by blast+
  note w = simplify_options_words [OF s]
  note x = simplify_options_affixes [OF ne s]
  show "\<forall>x\<in>set options. prefix (split_ws start_words) (split_ws x)" by (rule x(1))
  show "\<forall>p. (\<forall>x\<in>set options. prefix p (split_ws x)) \<longrightarrow> prefix p (split_ws start_words)"
    by (rule x(2))
  show "\<forall>x\<in>set options.
           suffix (split_ws end_words) (drop (length (split_ws start_words)) (split_ws x))"
    by (rule x(3))
  show "\<forall>q. (\<forall>x\<in>set options.
                 suffix q (drop (length (split_ws start_words)) (split_ws x)))
              \<longrightarrow> suffix q (split_ws end_words)"
    by (rule x(4))
  show "start_words = make_string '' '' (split_ws start_words)" by (rule w(7))
  show "end_words = make_string '' '' (split_ws end_words)" by (rule w(8))
  show "map split_ws options
          = map (\<lambda>x. split_ws start_words @ split_ws x @ split_ws end_words) options'"
  proof (rule nth_equalityI)
    show "length (map split_ws options)
      = length (map (\<lambda>x. split_ws start_words @ split_ws x @ split_ws end_words) options')"
      by (simp add: w(3))
  next
    fix i assume "i < length (map split_ws options)"
    then have i: "i < length options" by simp
    then have "split_ws (options ! i)
      = split_ws start_words @ split_ws (options' ! i) @ split_ws end_words"
      by (rule w(6))
    then show "map split_ws options ! i
      = map (\<lambda>x. split_ws start_words @ split_ws x @ split_ws end_words) options' ! i"
      using i by (simp add: w(3))
  qed
  show "\<forall>x\<in>set options'. x = make_string '' '' (split_ws x)"
  proof
    fix x assume "x \<in> set options'"
    then obtain i where i: "i < length options'" "x = options' ! i"
      by (auto simp: in_set_conv_nth)
    then have "i < length options" by (simp add: w(3))
    then have "options' ! i = make_string '' '' (split_ws (options' ! i))" by (rule w(5))
    then show "x = make_string '' '' (split_ws x)" by (simp only: i(2))
  qed
  show "sent' = replace sent (mask_token self')
                  (strip (make_string '' '' [start_words, mask_token self', end_words]))"
    by (rule w(9))
qed

theorem simplify_options_strips_common_affixes_witness:
  "mask_token uniform_model = ''***mask***''
   \<and> simplify_options uniform_model ''I want ***mask***.'' [''to eat'', ''to drink'']
        = ([''eat'', ''drink''], ''I want to ***mask***.'', ''to'', [])
   \<and> [''a red car'', ''a blue car''] \<noteq> []
   \<and> simplify_options uniform_model ''This is ***mask***.'' [''a red car'', ''a blue car'']
        = ([''red'', ''blue''], ''This is a ***mask*** car.'', ''a'', ''car'')
   \<and> prefix (split_ws ''a'') (split_ws ''a blue car'')
   \<and> suffix (split_ws ''car'') (drop (length (split_ws ''a'')) (split_ws ''a blue car''))
   \<and> map split_ws [''a red car'', ''a blue car'']
        = map (\<lambda>x. split_ws ''a'' @ split_ws x @ split_ws ''car'') [''red'', ''blue'']"
proof -
  have m: "mask_token uniform_model = ''***mask***''" by (simp add: uniform_model_def)
  have ne: "[''a red car'', ''a blue car''] \<noteq> []" by simp
  have mem: "''a blue car'' \<in> set [''a red car'', ''a blue car'']" by simp
  note t = simplify_options_strips_common_affixes
         [of uniform_model "[''a red car'', ''a blue car'']" uniform_model
             "''This is ***mask***.''" "[''red'', ''blue'']" "''This is a ***mask*** car.''"
             "''a''" "''car''"]
  note e = mp [OF conjunct1 [OF t] m]
  note c = mp [OF conjunct2 [OF t] conjI [OF ne red_blue]]
  note p = conjunct1 [OF c]
  note q = conjunct1 [OF conjunct2 [OF conjunct2 [OF c]]]
  note r = conjunct1 [OF conjunct2 [OF conjunct2 [OF conjunct2 [OF conjunct2
             [OF conjunct2 [OF conjunct2 [OF c]]]]]]]
  from p mem have p': "prefix (split_ws ''a'') (split_ws ''a blue car'')" by (rule bspec)
  from q mem have q': "suffix (split_ws ''car'')
      (drop (length (split_ws ''a'')) (split_ws ''a blue car''))" by (rule bspec)
  from m e ne red_blue p' q' r show ?thesis by (intro conjI)
qed

section \<open>Computations that succeed\<close>

lemma then_run_Inr:
  "then_run m f = (Inr y, l) \<longleftrightarrow>
     (\<exists>x l1 l2. m = (Inr x, l1) \<and> f x = (Inr y, l2) \<and> l = l1 @ l2)"
  by (cases m; cases "fst m") (auto simp: then_run_def split: prod.splits sum.splits)

lemma then_run_ret: "then_run m (\<lambda>x. ret (g x)) = (Inr y, l) \<longleftrightarrow> (\<exists>x. m = (Inr x, l) \<and> y = g x)"
  by (auto simp: then_run_Inr ret_def)

lemma traverse_length: "traverse f xs = (Inr ys, l) \<Longrightarrow> length ys = length xs"
proof (induction xs arbitrary: ys l)
  case Nil
  then show ?case by (simp add: ret_def)
next
  case (Cons x xs)
  then show ?case by (auto simp: then_run_Inr ret_def)
qed

lemma traverse_success:
  "(\<And>x. x \<in> set xs \<Longrightarrow> f x = (Inr (g x), h x)) \<Longrightarrow>
     traverse f xs = (Inr (map g xs), concat (map h xs))"
  by (induction xs) (simp_all add: ret_def then_run_def)

section \<open>The order of the ranking\<close>

lemma set_insert_desc: "set (insert_desc p qs) = insert p (set qs)"
  by (induction qs) auto

lemma mset_insert_desc: "mset (insert_desc p qs) = add_mset p (mset qs)"
  by (induction qs) auto

lemma mset_sorted_desc: "mset (sorted_desc ps) = mset ps"
  by (induction ps) (simp_all add: mset_insert_desc)

lemma set_sorted_desc: "set (sorted_desc ps) = set ps"
  using mset_sorted_desc [of ps] by (metis set_mset_mset)

lemma insert_desc_map:
  "insert_desc (k, f v) (map (\<lambda>(k, v). (k, f v)) qs)
     = map (\<lambda>(k, v). (k, f v)) (insert_desc (k, v) qs)"
  by (induction qs) auto

lemma sorted_desc_map:
  "sorted_desc (map (\<lambda>(k, v). (k, f v)) ps) = map (\<lambda>(k, v). (k, f v)) (sorted_desc ps)"
proof (induction ps)
  case Nil
  then show ?case by simp
next
  case (Cons p ps)
  obtain k v where p: "p = (k, v)" by (cases p)
  show ?case unfolding p using Cons by (simp add: insert_desc_map)
qed

lemma insert_desc_before:
  "sorted_wrt before qs \<Longrightarrow> \<forall>q\<in>set qs. snd p < snd q \<Longrightarrow>
     sorted_wrt before (insert_desc p qs)"
proof (induction qs)
  case Nil
  then show ?case by simp
next
  case (Cons q qs)
  show ?case
  proof (cases "fst q \<le> fst p")
    case True
    have "before p x" if "x \<in> set (q # qs)" for x
    proof -
      have "fst x \<le> fst q" using that Cons.prems(1) by (auto simp: before_def)
      then have "fst x \<le> fst p" using True by simp
      moreover have "snd p < snd x" using that Cons.prems(2) by blast
      ultimately show ?thesis by (auto simp: before_def)
    qed
    then show ?thesis using True Cons.prems(1) by auto
  next
    case False
    then have "fst p < fst q" by (simp add: not_le)
    then have "before q p" by (simp add: before_def)
    moreover have "sorted_wrt before (insert_desc p qs)"
      using Cons by simp
    ultimately show ?thesis
      using False Cons.prems(1) by (auto simp: set_insert_desc)
  qed
qed

lemma sorted_desc_before:
  "sorted_wrt (<) (map snd ps) \<Longrightarrow> sorted_wrt before (sorted_desc ps)"
proof (induction ps)
  case Nil
  then show ?case by simp
next
  case (Cons p ps)
  then have "sorted_wrt before (sorted_desc ps)" by simp
  moreover have "\<forall>q\<in>set (sorted_desc ps). snd p < snd q"
    using Cons.prems by (auto simp: set_sorted_desc)
  ultimately show ?case by (simp add: insert_desc_before)
qed

lemma zip_upt_nth:
  "length xs = length ys \<Longrightarrow>
     zip xs ys = map (\<lambda>(k, i). (k, ys ! i)) (zip xs [0..<length ys])"
  by (rule nth_equalityI) simp_all

text \<open>
  What the two rankers do with the scores: the result lists the options by descending
  score, and options of equal score in the order of the input.
\<close>

lemma ranking_order:
  fixes scores :: "('k::linorder) list"
  assumes len: "length scores = length words"
  shows "\<exists>order. mset order = mset [0..<length words]
           \<and> map snd (sorted_desc (zip scores words)) = map (\<lambda>i. words ! i) order
           \<and> sorted_wrt (\<lambda>i j. scores ! j < scores ! i \<or> (scores ! i = scores ! j \<and> i < j))
                order"
proof -
  let ?T = "zip scores [0..<length words]"
  let ?S = "sorted_desc ?T"
  let ?order = "map snd ?S"
  have snd_T: "map snd ?T = [0..<length words]" using len by simp
  have "mset ?order = mset (map snd ?T)"
    using mset_sorted_desc [of ?T] by (metis mset_map)
  then have perm: "mset ?order = mset [0..<length words]" by (simp only: snd_T)
  have "zip scores words = map (\<lambda>(k, i). (k, words ! i)) ?T"
    using len by (rule zip_upt_nth)
  then have "sorted_desc (zip scores words) = map (\<lambda>(k, i). (k, words ! i)) ?S"
    by (simp only: sorted_desc_map)
  then have out: "map snd (sorted_desc (zip scores words)) = map (\<lambda>i. words ! i) ?order"
    by (simp add: comp_def case_prod_unfold)
  have "sorted_wrt (<) (map snd ?T)" unfolding snd_T by (simp add: sorted_wrt_upt)
  then have b: "sorted_wrt before ?S" by (rule sorted_desc_before)
  have key: "fst p = scores ! snd p" if "p \<in> set ?S" for p
  proof -
    from that have "p \<in> set ?T" by (simp add: set_sorted_desc)
    then show ?thesis using len by (auto simp: set_zip)
  qed
  have "sorted_wrt (\<lambda>p q. scores ! snd q < scores ! snd p
            \<or> (scores ! snd p = scores ! snd q \<and> snd p < snd q)) ?S"
    using b by (rule sorted_wrt_mono_rel [rotated]) (auto simp: before_def key)
  then have "sorted_wrt (\<lambda>i j. scores ! j < scores ! i \<or> (scores ! i = scores ! j \<and> i < j))
                ?order"
    by (simp add: sorted_wrt_map)
  with perm out show ?thesis by blast
qed

text \<open>
  Claim C9. Both rankers list the options by descending score, and options of equal
  score in the order they have in the list the ranker is given. When \<open>rank_single\<close> or
  \<open>rank_multi\<close> returns, it has computed one score for every option, and the result is
  the options taken in an arrangement \<open>order\<close> of the positions of that list in which
  of any two positions the first has the higher score, or the same score and is the
  earlier position. (\<open>rank\<close> gives the rankers the simplified forms of the deduplicated
  options.)
\<close>

theorem ranking_is_stable:
  "(rank_single self masked_sent words = (Inr out, l) \<longrightarrow>
      (\<exists>scores order.
         single_scores self masked_sent words = (Inr scores, l)
         \<and> length scores = length words
         \<and> mset order = mset [0..<length words]
         \<and> out = map (\<lambda>i. words ! i) order
         \<and> sorted_wrt (\<lambda>i j. scores ! j < scores ! i \<or> (scores ! i = scores ! j \<and> i < j))
              order))
   \<and> (rank_multi self masked_sent' options = (Inr out', l') \<longrightarrow>
      (\<exists>scores order.
         multi_scores self masked_sent' options = (Inr scores, l')
         \<and> length scores = length options
         \<and> mset order = mset [0..<length options]
         \<and> out' = map (\<lambda>i. options ! i) order
         \<and> sorted_wrt (\<lambda>i j. scores ! j < scores ! i \<or> (scores ! i = scores ! j \<and> i < j))
              order))"
proof (intro conjI impI)
  assume "rank_single self masked_sent words = (Inr out, l)"
  then obtain scores where s: "single_scores self masked_sent words = (Inr scores, l)"
    and out: "out = map snd (sorted_desc (zip scores words))"
    unfolding rank_single_def then_run_ret by blast
  have len: "length scores = length words"
  proof -
    from s obtain pre post l0 where
      "traverse (word_score self pre post) words = (Inr scores, l0)"
      by (auto simp: single_scores_def then_run_Inr fail_with_def Let_def
               split: sum.splits list.splits)
    then show ?thesis by (rule traverse_length)
  qed
  from ranking_order [OF len] s len out
  show "\<exists>scores order.
         single_scores self masked_sent words = (Inr scores, l)
         \<and> length scores = length words
         \<and> mset order = mset [0..<length words]
         \<and> out = map (\<lambda>i. words ! i) order
         \<and> sorted_wrt (\<lambda>i j. scores ! j < scores ! i \<or> (scores ! i = scores ! j \<and> i < j))
              order"
    by auto
next
  assume "rank_multi self masked_sent' options = (Inr out', l')"
  then obtain scores where s: "multi_scores self masked_sent' options = (Inr scores, l')"
    and out: "out' = map snd (sorted_desc (zip scores options))"
    unfolding rank_multi_def then_run_ret by blast
  have len: "length scores = length options"
    using s unfolding multi_scores_def by (rule traverse_length)
  from ranking_order [OF len] s len out
  show "\<exists>scores order.
         multi_scores self masked_sent' options = (Inr scores, l')
         \<and> length scores = length options
         \<and> mset order = mset [0..<length options]
         \<and> out' = map (\<lambda>i. options ! i) order
         \<and> sorted_wrt (\<lambda>i j. scores ! j < scores ! i \<or> (scores ! i = scores ! j \<and> i < j))
              order"
    by auto
qed

section \<open>Runs of the example object\<close>

lemmas run_ev = then_run_def ret_def fail_with_def call_tokenize_def
  convert_tokens_to_ids_def call_bert_def word_score_def item_def softmax_def softmax_row_def
  split_ws_def isspace_def whitespace_chars_def Let_def uniform_model_def split_sep_def
  tokens_to_masked_ids_def enumerate_eq_zip

lemma single_scores_run_walk:
  "single_scores uniform_model ''go ***mask*** now'' [''run'', ''walk'']
  = (Inr [1 / 8, 1 / 8], [Tokenize ''go '', Tokenize '' now'',
       ConvertTokensToIds [''[CLS]'', ''go'', ''[MASK]'', ''now'', ''[SEP]''],
       Bert [[5, 2, 6, 3, 5]],
       Tokenize ''run'', ConvertTokensToIds [''run''],
       Tokenize ''walk'', ConvertTokensToIds [''walk'']])"
  by (simp add: single_scores_def run_ev)

lemma rank_single_run_walk:
  "rank_single uniform_model ''go ***mask*** now'' [''run'', ''walk'']
  = (Inr [''run'', ''walk''], [Tokenize ''go '', Tokenize '' now'',
       ConvertTokensToIds [''[CLS]'', ''go'', ''[MASK]'', ''now'', ''[SEP]''],
       Bert [[5, 2, 6, 3, 5]],
       Tokenize ''run'', ConvertTokensToIds [''run''],
       Tokenize ''walk'', ConvertTokensToIds [''walk'']])"
  by (simp add: rank_single_def single_scores_run_walk) (simp add: then_run_def ret_def)

lemma probability_go_on:
  "get_sentence_probability uniform_model ''go on'' = (Inr (1 / 64),
     [Tokenize ''go on'',
      ConvertTokensToIds [''[CLS]'', ''[MASK]'', ''on'', ''[SEP]''],
      ConvertTokensToIds [''[CLS]'', ''go'', ''[MASK]'', ''[SEP]''],
      Bert [[5, 6, 2, 5], [5, 2, 6, 5]],
      ConvertTokensToIds [''go'', ''on'']])"
  by (simp add: get_sentence_probability_def run_ev)

lemma probability_go:
  "get_sentence_probability uniform_model ''go'' = (Inr (1 / 8),
     [Tokenize ''go'',
      ConvertTokensToIds [''[CLS]'', ''[MASK]'', ''[SEP]''],
      Bert [[5, 6, 5]],
      ConvertTokensToIds [''go'']])"
  by (simp add: get_sentence_probability_def run_ev)

lemma multi_scores_go:
  "multi_scores uniform_model ''***mask***'' [''go on'', ''go'']
     = (Inr [1 / 64, 1 / 8],
     [Tokenize ''go on'',
      ConvertTokensToIds [''[CLS]'', ''[MASK]'', ''on'', ''[SEP]''],
      ConvertTokensToIds [''[CLS]'', ''go'', ''[MASK]'', ''[SEP]''],
      Bert [[5, 6, 2, 5], [5, 2, 6, 5]],
      ConvertTokensToIds [''go'', ''on''],
      Tokenize ''go'',
      ConvertTokensToIds [''[CLS]'', ''[MASK]'', ''[SEP]''],
      Bert [[5, 6, 5]],
      ConvertTokensToIds [''go'']])"
proof -
  have r1: "replace ''***mask***'' (mask_token uniform_model) ''go on'' = ''go on''"
    and r2: "replace ''***mask***'' (mask_token uniform_model) ''go'' = ''go''"
    by (simp_all add: replace_def uniform_model_def)
  show ?thesis
    unfolding multi_scores_def traverse.simps r1 r2 probability_go_on probability_go
    by (simp add: then_run_def ret_def)
qed

lemma rank_multi_go:
  "rank_multi uniform_model ''***mask***'' [''go on'', ''go'']
     = (Inr [''go'', ''go on''],
     [Tokenize ''go on'',
      ConvertTokensToIds [''[CLS]'', ''[MASK]'', ''on'', ''[SEP]''],
      ConvertTokensToIds [''[CLS]'', ''go'', ''[MASK]'', ''[SEP]''],
      Bert [[5, 6, 2, 5], [5, 2, 6, 5]],
      ConvertTokensToIds [''go'', ''on''],
      Tokenize ''go'',
      ConvertTokensToIds [''[CLS]'', ''[MASK]'', ''[SEP]''],
      Bert [[5, 6, 5]],
      ConvertTokensToIds [''go'']])"
  unfolding rank_multi_def multi_scores_go by (simp add: then_run_def ret_def)

theorem ranking_is_stable_witness:
  "rank_single uniform_model ''go ***mask*** now'' [''run'', ''walk'']
     = (Inr [''run'', ''walk''], snd (rank_single uniform_model ''go ***mask*** now'' [''run'', ''walk'']))
   \<and> single_scores uniform_model ''go ***mask*** now'' [''run'', ''walk'']
     = (Inr [1 / 8, 1 / 8], snd (rank_single uniform_model ''go ***mask*** now'' [''run'', ''walk'']))
   \<and> rank_multi uniform_model ''***mask***'' [''go on'', ''go'']
     = (Inr [''go'', ''go on''], snd (rank_multi uniform_model ''***mask***'' [''go on'', ''go'']))
   \<and> multi_scores uniform_model ''***mask***'' [''go on'', ''go'']
     = (Inr [1 / 64, 1 / 8], snd (rank_multi uniform_model ''***mask***'' [''go on'', ''go'']))
   \<and> (\<exists>scores order.
         single_scores uniform_model ''go ***mask*** now'' [''run'', ''walk'']
           = (Inr scores, snd (rank_single uniform_model ''go ***mask*** now'' [''run'', ''walk'']))
         \<and> length scores = length [''run'', ''walk'']
         \<and> mset order = mset [0..<length [''run'', ''walk'']]
         \<and> [''run'', ''walk''] = map (\<lambda>i. [''run'', ''walk''] ! i) order
         \<and> sorted_wrt (\<lambda>i j. scores ! j < scores ! i \<or> (scores ! i = scores ! j \<and> i < j))
              order)
   \<and> (\<exists>scores order.
         multi_scores uniform_model ''***mask***'' [''go on'', ''go'']
           = (Inr scores, snd (rank_multi uniform_model ''***mask***'' [''go on'', ''go'']))
         \<and> length scores = length [''go on'', ''go'']
         \<and> mset order = mset [0..<length [''go on'', ''go'']]
         \<and> [''go'', ''go on''] = map (\<lambda>i. [''go on'', ''go''] ! i) order
         \<and> sorted_wrt (\<lambda>i j. scores ! j < scores ! i \<or> (scores ! i = scores ! j \<and> i < j))
              order)"
proof -
  have s: "rank_single uniform_model ''go ***mask*** now'' [''run'', ''walk'']
     = (Inr [''run'', ''walk''],
        snd (rank_single uniform_model ''go ***mask*** now'' [''run'', ''walk'']))"
    by (simp add: rank_single_run_walk)
  have ss: "single_scores uniform_model ''go ***mask*** now'' [''run'', ''walk'']
     = (Inr [1 / 8, 1 / 8],
        snd (rank_single uniform_model ''go ***mask*** now'' [''run'', ''walk'']))"
    by (simp add: rank_single_run_walk single_scores_run_walk)
  have m: "rank_multi uniform_model ''***mask***'' [''go on'', ''go'']
     = (Inr [''go'', ''go on''], snd (rank_multi uniform_model ''***mask***'' [''go on'', ''go'']))"
    by (simp add: rank_multi_go)
  have ms: "multi_scores uniform_model ''***mask***'' [''go on'', ''go'']
     = (Inr [1 / 64, 1 / 8], snd (rank_multi uniform_model ''***mask***'' [''go on'', ''go'']))"
    by (simp add: rank_multi_go multi_scores_go)
  note t = ranking_is_stable [of uniform_model "''go ***mask*** now''" "[''run'', ''walk'']"
      "[''run'', ''walk'']" "snd (rank_single uniform_model ''go ***mask*** now'' [''run'', ''walk''])"
      "''***mask***''" "[''go on'', ''go'']" "[''go'', ''go on'']"
      "snd (rank_multi uniform_model ''***mask***'' [''go on'', ''go''])"]
  note a = mp [OF conjunct1 [OF t] s]
  note b = mp [OF conjunct2 [OF t] m]
  from s ss m ms a b show ?thesis by (intro conjI)
qed

section \<open>The probability of a sentence\<close>

lemma then_run_value: "then_run (Inr x, l1) f = (fst (f x), l1 @ snd (f x))"
  by (simp add: then_run_def split: prod.splits)

lemma those_idents:
  "\<forall>tok\<in>set ts. voc tok = Some (ident tok) \<Longrightarrow> those (map voc ts) = Some (map ident ts)"
  by (induction ts) simp_all

lemma convert_idents:
  "\<forall>tok\<in>set ts. vocab self tok = Some (ident tok) \<Longrightarrow>
     convert_tokens_to_ids self ts = (Inr (map ident ts), [ConvertTokensToIds ts])"
  using those_idents [of ts "vocab self" ident] by (simp add: convert_tokens_to_ids_def)

lemma length_softmax [simp]: "length (softmax self x) = length x"
  by (simp add: softmax_def)

lemma length_softmax_nth [simp]:
  "i < length x \<Longrightarrow> length (softmax self x ! i) = length (x ! i)"
  by (simp add: softmax_def)

lemma length_softmax_nth_nth [simp]:
  "i < length x \<Longrightarrow> j < length (x ! i) \<Longrightarrow>
     length (softmax self x ! i ! j) = length (x ! i ! j)"
  by (simp add: softmax_def softmax_row_def)

lemma item_success: "i < length xs \<Longrightarrow> item xs i = (Inr (xs ! i), [])"
  by (simp add: item_def ret_def)

lemma map_enumerate_fst:
  "map (\<lambda>(i, x). g i) (enumerate 0 xs) = map g [0..<length xs]"
  by (rule nth_equalityI) (simp_all add: nth_enumerate_eq)

lemma map_enumerate_nth:
  "map (\<lambda>(i, x). g i x) (enumerate 0 xs) = map (\<lambda>i. g i (xs ! i)) [0..<length xs]"
  by (rule nth_equalityI) (simp_all add: nth_enumerate_eq)

text \<open>
  Claim C4. Let \<open>t\<close> be the tokens of the text, all of them and the three special
  tokens in the vocabulary with ids \<open>ident\<close>. \<open>get_sentence_probability\<close> gives the
  model one batch with a row for every position \<open>i\<close> of \<open>t\<close>: the ids of \<open>[CLS]\<close>, of
  \<open>t\<close> with \<open>[MASK]\<close> in the place of \<open>t[i]\<close>, and of \<open>[SEP]\<close>, so that the mask is at
  position \<open>i + 1\<close> of row \<open>i\<close>. When the model answers with scores of the fitting
  shape, the result is the number one multiplied, from the first position to the last,
  by the softmax of the scores of row \<open>i\<close> at position \<open>i + 1\<close>, taken at the id of
  \<open>t[i]\<close>. The model is called once, after the tokenizer has produced the rows.
\<close>

theorem sentence_probability_is_product:
  "tokenize self sent = t \<Longrightarrow>
   \<forall>tok\<in>set t \<union> {''[CLS]'', ''[MASK]'', ''[SEP]''}. vocab self tok = Some (ident tok) \<Longrightarrow>
   bert self (map (\<lambda>i. map ident ([''[CLS]''] @ t[i := ''[MASK]''] @ [''[SEP]'']))
                  [0..<length t]) = Some preds \<Longrightarrow>
   \<forall>i<length t. i < length preds \<and> i + 1 < length (preds ! i)
                \<and> ident (t ! i) < length (preds ! i ! (i + 1)) \<Longrightarrow>
   get_sentence_probability self sent =
     (Inr (foldl (\<lambda>x y. float_mul self x y) (float_one self)
             (map (\<lambda>i. softmax self preds ! i ! (i + 1) ! ident (t ! i)) [0..<length t])),
      [Tokenize sent]
      @ map (\<lambda>i. ConvertTokensToIds ([''[CLS]''] @ t[i := ''[MASK]''] @ [''[SEP]'']))
          [0..<length t]
      @ [Bert (map (\<lambda>i. map ident ([''[CLS]''] @ t[i := ''[MASK]''] @ [''[SEP]'']))
                   [0..<length t]),
         ConvertTokensToIds t])
   \<and> (\<forall>i<length t.
         map ident ([''[CLS]''] @ t[i := ''[MASK]''] @ [''[SEP]'']) ! (i + 1)
           = ident ''[MASK]'')"
proof -
  assume t: "tokenize self sent = t"
    and ids: "\<forall>tok\<in>set t \<union> {''[CLS]'', ''[MASK]'', ''[SEP]''}. vocab self tok = Some (ident tok)"
    and model: "bert self (map (\<lambda>i. map ident ([''[CLS]''] @ t[i := ''[MASK]''] @ [''[SEP]'']))
                  [0..<length t]) = Some preds"
    and shape: "\<forall>i<length t. i < length preds \<and> i + 1 < length (preds ! i)
                \<and> ident (t ! i) < length (preds ! i ! (i + 1))"
  let ?masked = "\<lambda>i. [''[CLS]''] @ t[i := ''[MASK]''] @ [''[SEP]'']"
  let ?batch = "map (\<lambda>i. map ident (?masked i)) [0..<length t]"
  let ?probs = "softmax self preds"
  let ?ps = "map (\<lambda>i. ?probs ! i ! (i + 1) ! ident (t ! i)) [0..<length t]"
  have s1: "call_tokenize self sent = (Inr t, [Tokenize sent])"
    by (simp add: call_tokenize_def t)
  have row: "tokens_to_masked_ids self t i
      = (Inr (map ident (?masked i)), [ConvertTokensToIds (?masked i)])" if "i < length t" for i
  proof -
    have "set (t[i := ''[MASK]'']) \<subseteq> insert ''[MASK]'' (set t)" by (rule set_update_subset_insert)
    then have "\<forall>tok\<in>set (?masked i). vocab self tok = Some (ident tok)"
      using ids by auto
    then have "convert_tokens_to_ids self (?masked i)
      = (Inr (map ident (?masked i)), [ConvertTokensToIds (?masked i)])"
      by (rule convert_idents)
    then show ?thesis using that by (simp add: tokens_to_masked_ids_def)
  qed
  have "traverse (\<lambda>(i, x). tokens_to_masked_ids self t i) (enumerate 0 t)
      = (Inr (map (\<lambda>(i, x). map ident (?masked i)) (enumerate 0 t)),
         concat (map (\<lambda>(i, x). [ConvertTokensToIds (?masked i)]) (enumerate 0 t)))"
  proof (rule traverse_success)
    fix p assume "p \<in> set (enumerate 0 t)"
    then have "fst p < length t" by (auto simp: in_set_enumerate_eq)
    then show "(case p of (i, x) \<Rightarrow> tokens_to_masked_ids self t i)
      = (Inr (case p of (i, x) \<Rightarrow> map ident (?masked i)),
         case p of (i, x) \<Rightarrow> [ConvertTokensToIds (?masked i)])"
      using row [of "fst p"] by (simp add: case_prod_unfold)
  qed
  moreover have "concat (map (\<lambda>(i, x). [ConvertTokensToIds (?masked i)]) (enumerate 0 t))
      = map (\<lambda>i. ConvertTokensToIds (?masked i)) [0..<length t]"
  proof -
    have "map (\<lambda>(i, x). [ConvertTokensToIds (?masked i)]) (enumerate 0 t)
      = map (\<lambda>i. [ConvertTokensToIds (?masked i)]) [0..<length t]"
      by (rule map_enumerate_fst)
    then show ?thesis by (simp add: concat_map_singleton)
  qed
  ultimately have s2: "traverse (\<lambda>(i, x). tokens_to_masked_ids self t i) (enumerate 0 t)
      = (Inr ?batch, map (\<lambda>i. ConvertTokensToIds (?masked i)) [0..<length t])"
    by (simp only: map_enumerate_fst)
  have s3: "call_bert self ?batch = (Inr preds, [Bert ?batch])"
    by (simp only: call_bert_def model option.case)
  have s4: "convert_tokens_to_ids self t = (Inr (map ident t), [ConvertTokensToIds t])"
    using ids by (intro convert_idents) blast
  have look: "then_run (item ?probs i) (\<lambda>a. then_run (item a (i + 1)) (\<lambda>b. item b (ident (t ! i))))
      = (Inr (?probs ! i ! (i + 1) ! ident (t ! i)), [])" if "i < length t" for i
  proof -
    from shape that have sh: "i < length preds" "i + 1 < length (preds ! i)"
      "ident (t ! i) < length (preds ! i ! (i + 1))" by blast+
    then show ?thesis
      by (simp add: item_success then_run_def)
  qed
  have "traverse (\<lambda>(i, x). then_run (item ?probs i) (\<lambda>a. then_run (item a (i + 1)) (\<lambda>b. item b x)))
          (enumerate 0 (map ident t))
      = (Inr (map (\<lambda>(i, x). ?probs ! i ! (i + 1) ! x) (enumerate 0 (map ident t))),
         concat (map (\<lambda>p. []) (enumerate 0 (map ident t))))"
  proof (rule traverse_success)
    fix p assume "p \<in> set (enumerate 0 (map ident t))"
    then have p: "fst p < length t" "snd p = ident (t ! fst p)"
      by (auto simp: in_set_enumerate_eq)
    show "(case p of (i, x) \<Rightarrow>
            then_run (item ?probs i) (\<lambda>a. then_run (item a (i + 1)) (\<lambda>b. item b x)))
      = (Inr (case p of (i, x) \<Rightarrow> ?probs ! i ! (i + 1) ! x), [])"
      using look [OF p(1)] p(2) by (simp add: case_prod_unfold)
  qed
  moreover have "map (\<lambda>(i, x). ?probs ! i ! (i + 1) ! x) (enumerate 0 (map ident t)) = ?ps"
    by (simp add: map_enumerate_nth)
  ultimately have s5:
    "traverse (\<lambda>(i, x). then_run (item ?probs i) (\<lambda>a. then_run (item a (i + 1)) (\<lambda>b. item b x)))
          (enumerate 0 (map ident t)) = (Inr ?ps, [])"
    by simp
  have "get_sentence_probability self sent =
     (Inr (foldl (\<lambda>x y. float_mul self x y) (float_one self) ?ps),
      [Tokenize sent] @ (map (\<lambda>i. ConvertTokensToIds (?masked i)) [0..<length t]
      @ ([Bert ?batch] @ ([ConvertTokensToIds t] @ ([] @ [])))))"
    unfolding get_sentence_probability_def Let_def
    by (simp only: s1 s2 s3 s4 s5 then_run_value ret_def fst_conv snd_conv)
  then have run: "get_sentence_probability self sent =
     (Inr (foldl (\<lambda>x y. float_mul self x y) (float_one self) ?ps),
      [Tokenize sent] @ map (\<lambda>i. ConvertTokensToIds (?masked i)) [0..<length t]
      @ [Bert ?batch, ConvertTokensToIds t])"
    by simp
  have pos: "\<forall>i<length t. map ident (?masked i) ! (i + 1) = ident ''[MASK]''"
    by (simp add: nth_append)
  from run pos show ?thesis by blast
qed

theorem sentence_probability_is_product_witness:
  "tokenize uniform_model ''go on'' = [''go'', ''on'']
   \<and> bert uniform_model [[5, 6, 2, 5], [5, 2, 6, 5]]
       = Some [[[0, 0, 0, 0, 0, 0, 0, 0], [0, 0, 0, 0, 0, 0, 0, 0],
                [0, 0, 0, 0, 0, 0, 0, 0], [0, 0, 0, 0, 0, 0, 0, 0]],
               [[0, 0, 0, 0, 0, 0, 0, 0], [0, 0, 0, 0, 0, 0, 0, 0],
                [0, 0, 0, 0, 0, 0, 0, 0], [0, 0, 0, 0, 0, 0, 0, 0]]]
   \<and> get_sentence_probability uniform_model ''go on''
       = (Inr (1 * (1 / 8) * (1 / 8)),
          [Tokenize ''go on'',
           ConvertTokensToIds [''[CLS]'', ''[MASK]'', ''on'', ''[SEP]''],
           ConvertTokensToIds [''[CLS]'', ''go'', ''[MASK]'', ''[SEP]''],
           Bert [[5, 6, 2, 5], [5, 2, 6, 5]],
           ConvertTokensToIds [''go'', ''on'']])"
proof -
  let ?z = "[0, 0, 0, 0, 0, 0, 0, 0] :: real list"
  let ?preds = "[[?z, ?z, ?z, ?z], [?z, ?z, ?z, ?z]]"
  have t: "tokenize uniform_model ''go on'' = [''go'', ''on'']"
    by (simp add: uniform_model_def split_ws_def isspace_def whitespace_chars_def)
  have ids: "\<forall>tok\<in>set [''go'', ''on''] \<union> {''[CLS]'', ''[MASK]'', ''[SEP]''}.
               vocab uniform_model tok = Some (length tok)"
    by (simp add: uniform_model_def)
  have batch: "map (\<lambda>i. map length ([''[CLS]''] @ [''go'', ''on''][i := ''[MASK]''] @ [''[SEP]'']))
                  [0..<length [''go'', ''on'']] = [[5, 6, 2, 5], [5, 2, 6, 5]]"
    by (simp add: upt_rec)
  have model: "bert uniform_model [[5, 6, 2, 5], [5, 2, 6, 5]] = Some ?preds"
    by (simp add: uniform_model_def)
  have shape: "\<forall>i<length [''go'', ''on'']. i < length ?preds \<and> i + 1 < length (?preds ! i)
                \<and> length ([''go'', ''on''] ! i) < length (?preds ! i ! (i + 1))"
    by (simp add: less_Suc_eq)
  note p = sentence_probability_is_product [of uniform_model "''go on''" "[''go'', ''on'']" length
      ?preds, OF t ids model [folded batch] shape, THEN conjunct1]
  have "get_sentence_probability uniform_model ''go on''
       = (Inr (1 * (1 / 8) * (1 / 8)),
          [Tokenize ''go on'',
           ConvertTokensToIds [''[CLS]'', ''[MASK]'', ''on'', ''[SEP]''],
           ConvertTokensToIds [''[CLS]'', ''go'', ''[MASK]'', ''[SEP]''],
           Bert [[5, 6, 2, 5], [5, 2, 6, 5]],
           ConvertTokensToIds [''go'', ''on'']])"
    unfolding p by (simp add: upt_rec softmax_def softmax_row_def uniform_model_def)
  with t model show ?thesis by (intro conjI)
qed

section \<open>Putting the options together again\<close>

lemma strip_space_left: "strip (CHR '' '' # s) = strip s"
  by (simp add: strip_def)

lemma strip_space_right: "strip (s @ '' '') = strip s"
proof (cases "\<forall>c\<in>set s. isspace c")
  case True
  have a: "dropWhile isspace s = []"
    using True by (subst dropWhile_eq_Nil_conv) blast
  have "\<forall>c\<in>set (s @ '' ''). isspace c" using True by simp
  then have b: "dropWhile isspace (s @ '' '') = []"
    by (subst dropWhile_eq_Nil_conv) blast
  show ?thesis unfolding strip_def a b ..
next
  case False
  then have "dropWhile isspace (s @ '' '') = dropWhile isspace s @ '' ''"
    by (simp add: dropWhile_append)
  then show ?thesis by (simp add: strip_def)
qed

lemma strip_Nil [simp]: "strip [] = []"
  by (simp add: strip_def)

lemma make_string_append:
  "xs \<noteq> [] \<Longrightarrow> ys \<noteq> [] \<Longrightarrow>
     make_string sep (xs @ ys) = make_string sep xs @ sep @ make_string sep ys"
proof (induction sep xs rule: make_string.induct)
  case (1 sep)
  then show ?case by simp
next
  case (2 sep x)
  then show ?case by (cases ys) simp_all
next
  case (3 sep x y ys')
  then show ?case by simp
qed

lemma make_string_Nil_iff:
  "tokens_ok ts \<Longrightarrow> make_string '' '' ts = [] \<longleftrightarrow> ts = []"
  using make_string_ends [of ts] by auto

text \<open>
  Putting the start words, a simplified option and the end words together again gives
  the words of the option joined by single spaces, unless the simplified option is
  empty between start words and end words.
\<close>

lemma rejoin:
  assumes ok: "tokens_ok s" "tokens_ok m" "tokens_ok e"
    and side: "s = [] \<or> e = [] \<or> m \<noteq> []"
  shows "strip (make_string '' '' [make_string '' '' s, make_string '' '' m, make_string '' '' e])
       = make_string '' '' (s @ m @ e)"
proof -
  have id: "strip (make_string '' '' ts) = make_string '' '' ts" if "tokens_ok ts" for ts
    using that by (rule strip_make_string)
  have l: "strip ('' '' @ x) = strip x" for x
    by (simp add: strip_space_left)
  have r: "strip (x @ '' '') = strip x" for x
    by (rule strip_space_right)
  have r2: "strip (x @ '' '' @ '' '') = strip x" for x
    using r [of "x @ '' ''"] r [of x] by simp
  have okc: "tokens_ok (s @ m)" "tokens_ok (m @ e)" "tokens_ok (s @ m @ e)"
    using ok by (auto simp: tokens_ok_def)
  consider (a) "s = []" "m = []" | (b) "s = []" "m \<noteq> []" "e = []"
    | (c) "s = []" "m \<noteq> []" "e \<noteq> []" | (d) "s \<noteq> []" "m = []" "e = []"
    | (f) "s \<noteq> []" "m \<noteq> []" "e = []" | (g) "s \<noteq> []" "m \<noteq> []" "e \<noteq> []"
    using side by blast
  then show ?thesis
  proof cases
    case a
    have "strip ('' '' @ '' '' @ make_string '' '' e) = make_string '' '' e"
      using l [of "'' '' @ make_string '' '' e"] l [of "make_string '' '' e"] id [OF ok(3)]
      by simp
    then show ?thesis using a by simp
  next
    case b
    have "strip ('' '' @ make_string '' '' m @ '' '') = make_string '' '' m"
      using l [of "make_string '' '' m @ '' ''"] r [of "make_string '' '' m"] id [OF ok(2)]
      by simp
    then show ?thesis using b by simp
  next
    case c
    have "strip ('' '' @ make_string '' '' (m @ e)) = make_string '' '' (m @ e)"
      using l [of "make_string '' '' (m @ e)"] id [OF okc(2)] by simp
    then show ?thesis using c by (simp add: make_string_append)
  next
    case d
    have "strip (make_string '' '' s @ '' '' @ '' '') = make_string '' '' s"
      using r2 [of "make_string '' '' s"] id [OF ok(1)] by simp
    then show ?thesis using d by simp
  next
    case f
    have "strip (make_string '' '' (s @ m) @ '' '') = make_string '' '' (s @ m)"
      using r [of "make_string '' '' (s @ m)"] id [OF okc(1)] by simp
    then show ?thesis using f by (simp add: make_string_append)
  next
    case g
    have "make_string '' '' (s @ m @ e)
        = make_string '' '' s @ '' '' @ make_string '' '' m @ '' '' @ make_string '' '' e"
      using g by (simp add: make_string_append)
    then show ?thesis using id [OF okc(3)] by simp
  qed
qed

lemma replace_scan_same_aux:
  "new = old \<Longrightarrow> old \<noteq> [] \<Longrightarrow> replace_scan old new s = s"
proof (induction old new s rule: replace_scan.induct)
  case (1 old new)
  then show ?case by simp
next
  case (2 old new c cs)
  show ?case
  proof (cases "prefix old (c # cs)")
    case True
    then obtain rest where rest: "c # cs = old @ rest" by (auto simp: prefix_def)
    from 2(4) obtain h hs where old: "old = h # hs" by (cases old) auto
    from rest old have cs: "cs = hs @ rest" by simp
    have d: "drop (length old - 1) cs = rest" using old cs by simp
    have ih: "replace_scan old new (drop (length old - 1) cs) = drop (length old - 1) cs"
      using 2(1) [OF True] 2(3) 2(4) by simp
    have "replace_scan old new (c # cs) = new @ replace_scan old new (drop (length old - 1) cs)"
      using True by simp
    also have "\<dots> = old @ rest" using ih d 2(3) by simp
    also have "\<dots> = c # cs" using rest by simp
    finally show ?thesis .
  next
    case False
    then show ?thesis using 2(2) 2(3) 2(4) by simp
  qed
qed

lemma replace_scan_same: "old \<noteq> [] \<Longrightarrow> replace_scan old old s = s"
  by (rule replace_scan_same_aux) simp_all

lemma replace_same: "replace s old old = s"
proof (cases "old = []")
  case True
  then show ?thesis by (simp add: replace_def)
next
  case False
  then show ?thesis by (simp add: replace_def replace_scan_same)
qed

section \<open>What rank returns\<close>

lemma single_scores_length:
  "single_scores self masked_sent words = (Inr scores, l) \<Longrightarrow> length scores = length words"
proof -
  assume "single_scores self masked_sent words = (Inr scores, l)"
  then obtain probs idx l0 where
    "traverse (word_score self probs idx) words = (Inr scores, l0)"
    by (auto simp: single_scores_def then_run_Inr fail_with_def Let_def
             split: sum.splits list.splits)
  then show ?thesis by (rule traverse_length)
qed

lemma multi_scores_length:
  "multi_scores self masked_sent options = (Inr scores, l) \<Longrightarrow> length scores = length options"
  unfolding multi_scores_def by (rule traverse_length)

lemma mset_ranked:
  "length scores = length words \<Longrightarrow> mset (map snd (sorted_desc (zip scores words))) = mset words"
proof -
  assume len: "length scores = length words"
  have "mset (map snd (sorted_desc (zip scores words))) = mset (map snd (zip scores words))"
    using mset_sorted_desc [of "zip scores words"] by (metis mset_map)
  then show ?thesis using len by simp
qed

lemma rank_single_mset:
  "rank_single self masked_sent words = (Inr out, l) \<Longrightarrow> mset out = mset words"
proof -
  assume "rank_single self masked_sent words = (Inr out, l)"
  then obtain scores where s: "single_scores self masked_sent words = (Inr scores, l)"
    and out: "out = map snd (sorted_desc (zip scores words))"
    unfolding rank_single_def then_run_ret by blast
  show ?thesis unfolding out using single_scores_length [OF s] by (rule mset_ranked)
qed

lemma rank_multi_mset:
  "rank_multi self masked_sent options = (Inr out, l) \<Longrightarrow> mset out = mset options"
proof -
  assume "rank_multi self masked_sent options = (Inr out, l)"
  then obtain scores where s: "multi_scores self masked_sent options = (Inr scores, l)"
    and out: "out = map snd (sorted_desc (zip scores options))"
    unfolding rank_multi_def then_run_ret by blast
  show ?thesis unfolding out using multi_scores_length [OF s] by (rule mset_ranked)
qed

lemma rank_short:
  "length (distinct_t options) = 1 \<Longrightarrow> rank self sent options = (Inr (distinct_t options), [])"
  by (simp add: rank_def ret_def)

lemma rank_long:
  "length (distinct_t options) \<noteq> 1 \<Longrightarrow>
   simplify_options self sent (distinct_t options) = (options', sent', start_words, end_words) \<Longrightarrow>
   rank self sent options =
     then_run (if is_multi options' then rank_multi self sent' options'
               else rank_single self sent' options')
       (\<lambda>ranked. ret (map (\<lambda>x. strip (make_string '' '' [start_words, x, end_words])) ranked))"
  by (simp add: rank_def Let_def)

lemma rank_long_Inr:
  assumes "length (distinct_t options) \<noteq> 1"
    and "simplify_options self sent (distinct_t options) = (options', sent', start_words, end_words)"
    and "rank self sent options = (Inr out, l)"
  shows "\<exists>ranked. mset ranked = mset options'
           \<and> out = map (\<lambda>x. strip (make_string '' '' [start_words, x, end_words])) ranked"
proof -
  from assms(3) obtain ranked where
    r: "(if is_multi options' then rank_multi self sent' options'
         else rank_single self sent' options') = (Inr ranked, l)"
    and out: "out = map (\<lambda>x. strip (make_string '' '' [start_words, x, end_words])) ranked"
    unfolding rank_long [OF assms(1,2)] then_run_ret by blast
  have "mset ranked = mset options'"
    using r by (cases "is_multi options'") (auto dest: rank_multi_mset rank_single_mset)
  with out show ?thesis by blast
qed

lemma distinct_t_idem: "distinct_t (distinct_t xs) = distinct_t xs"
  by (rule distinct_t_id) (rule distinct_distinct_t)

lemma rank_length:
  assumes "rank self sent options = (Inr out, l)"
  shows "length out = length (distinct_t options)"
proof (cases "length (distinct_t options) = 1")
  case True
  then show ?thesis using assms by (simp add: rank_short)
next
  case False
  obtain options' sent' start_words end_words where
    s: "simplify_options self sent (distinct_t options) = (options', sent', start_words, end_words)"
    by (cases "simplify_options self sent (distinct_t options)") auto
  from rank_long_Inr [OF False s assms] obtain ranked where
    "mset ranked = mset options'" "length out = length ranked" by auto
  then have "length out = length options'" by (metis size_mset)
  then show ?thesis using simplify_options_words(3) [OF s] by simp
qed

text \<open>
  Options that are their words joined by single spaces come back from the
  simplification as they were, unless one is used up by start words and end words.
\<close>

lemma rejoin_options:
  assumes norm: "\<forall>x\<in>set options. make_string '' '' (split_ws x) = x"
    and s: "simplify_options self sent options = (options', sent', start_words, end_words)"
    and side: "start_words = [] \<or> end_words = [] \<or> [] \<notin> set options'"
  shows "map (\<lambda>x. strip (make_string '' '' [start_words, x, end_words])) options' = options"
proof (rule nth_equalityI)
  show "length (map (\<lambda>x. strip (make_string '' '' [start_words, x, end_words])) options')
      = length options"
    using simplify_options_words(3) [OF s] by simp
next
  fix i
  assume "i < length (map (\<lambda>x. strip (make_string '' '' [start_words, x, end_words])) options')"
  then have i': "i < length options'" by simp
  then have i: "i < length options" using simplify_options_words(3) [OF s] by simp
  let ?S = "split_ws start_words" and ?M = "split_ws (options' ! i)" and ?E = "split_ws end_words"
  have parts: "split_ws (options ! i) = ?S @ ?M @ ?E"
    using i by (rule simplify_options_words(6) [OF s])
  have m: "options' ! i = make_string '' '' ?M"
    using i by (rule simplify_options_words(5) [OF s])
  have sw: "start_words = make_string '' '' ?S" by (rule simplify_options_words(7) [OF s])
  have ew: "end_words = make_string '' '' ?E" by (rule simplify_options_words(8) [OF s])
  have side': "?S = [] \<or> ?E = [] \<or> ?M \<noteq> []"
  proof -
    from side consider "start_words = []" | "end_words = []" | "[] \<notin> set options'" by blast
    then show ?thesis
    proof cases
      case 1
      then show ?thesis by (simp add: split_ws_def)
    next
      case 2
      then show ?thesis by (simp add: split_ws_def)
    next
      case 3
      then have "options' ! i \<noteq> []" using i' by (metis nth_mem)
      then have "?M \<noteq> []" using m by auto
      then show ?thesis by blast
    qed
  qed
  have "strip (make_string '' '' [make_string '' '' ?S, make_string '' '' ?M, make_string '' '' ?E])
      = make_string '' '' (?S @ ?M @ ?E)"
    using split_ws_ok split_ws_ok split_ws_ok side' by (rule rejoin)
  then have "strip (make_string '' '' [start_words, options' ! i, end_words])
      = make_string '' '' (split_ws (options ! i))"
    using sw ew m parts by (simp only:)
  also have "\<dots> = options ! i" using norm i by simp
  finally show "map (\<lambda>x. strip (make_string '' '' [start_words, x, end_words])) options' ! i
      = options ! i"
    using i' by simp
qed

lemma rank_mset:
  assumes norm: "\<forall>x\<in>set options. make_string '' '' (split_ws x) = x"
    and s: "simplify_options self sent (distinct_t options)
             = (options', sent', start_words, end_words)"
    and side: "start_words = [] \<or> end_words = [] \<or> [] \<notin> set options'"
    and r: "rank self sent options = (Inr out, l)"
  shows "mset out = mset (distinct_t options)"
proof (cases "length (distinct_t options) = 1")
  case True
  then show ?thesis using r by (simp add: rank_short)
next
  case False
  let ?f = "\<lambda>x. strip (make_string '' '' [start_words, x, end_words])"
  from rank_long_Inr [OF False s r] obtain ranked where
    ranked: "mset ranked = mset options'" and out: "out = map ?f ranked" by blast
  have norm': "\<forall>x\<in>set (distinct_t options). make_string '' '' (split_ws x) = x"
    using norm by (simp add: set_distinct_t)
  have "mset out = image_mset ?f (mset ranked)" unfolding out by simp
  also have "\<dots> = mset (map ?f options')" unfolding ranked by simp
  also have "\<dots> = mset (distinct_t options)"
    using rejoin_options [OF norm' s side] by simp
  finally show ?thesis .
qed

lemmas string_ev = split_ws_def isspace_def whitespace_chars_def strip_def replace_def

lemma eat_drink_wide:
  "simplify_options uniform_model ''I want ***mask***.'' [''to  eat'', ''to  drink'']
     = ([''eat'', ''drink''], ''I want to ***mask***.'', ''to'', [])"
  unfolding simplify_options_plain [of uniform_model] mask_uniform_model by code_simp

lemma a_b_wide:
  "simplify_options uniform_model ''Say ***mask***'' [''a b'', ''a  b'']
     = ([[], []], ''Say a b ***mask***'', ''a b'', [])"
  unfolding simplify_options_plain [of uniform_model] mask_uniform_model by code_simp

lemma run_walk:
  "simplify_options uniform_model ''go ***mask*** now'' [''run'', ''walk'']
     = ([''run'', ''walk''], ''go ***mask*** now'', [], [])"
  unfolding simplify_options_plain [of uniform_model] mask_uniform_model by code_simp

lemma rank_single_eat_drink:
  "rank_single uniform_model ''I want to ***mask***.'' [''eat'', ''drink'']
  = (Inr [''eat'', ''drink''], [Tokenize ''I want to '', Tokenize ''.'',
       ConvertTokensToIds [''[CLS]'', ''I'', ''want'', ''to'', ''[MASK]'', ''.'', ''[SEP]''],
       Bert [[5, 1, 4, 2, 6, 1, 5]],
       Tokenize ''eat'', ConvertTokensToIds [''eat''],
       Tokenize ''drink'', ConvertTokensToIds [''drink'']])"
  by (simp add: rank_single_def single_scores_def run_ev)

lemma rank_eat_drink:
  "rank uniform_model ''I want ***mask***.'' [''to eat'', ''to drink'']
  = (Inr [''to eat'', ''to drink''], [Tokenize ''I want to '', Tokenize ''.'',
       ConvertTokensToIds [''[CLS]'', ''I'', ''want'', ''to'', ''[MASK]'', ''.'', ''[SEP]''],
       Bert [[5, 1, 4, 2, 6, 1, 5]],
       Tokenize ''eat'', ConvertTokensToIds [''eat''],
       Tokenize ''drink'', ConvertTokensToIds [''drink'']])"
proof -
  have d: "distinct_t [''to eat'', ''to drink''] = [''to eat'', ''to drink'']"
    by (simp add: distinct_t_def)
  have m: "\<not> is_multi [''eat'', ''drink'']" by (simp add: is_multi_def string_ev)
  show ?thesis
    using rank_long [of "[''to eat'', ''to drink'']" uniform_model "''I want ***mask***.''",
        unfolded d, OF _ eat_drink] m
    by (simp add: rank_single_eat_drink then_run_def ret_def strip_def isspace_def
          whitespace_chars_def)
qed

lemma rank_eat_drink_wide:
  "rank uniform_model ''I want ***mask***.'' [''to  eat'', ''to  drink'']
  = (Inr [''to eat'', ''to drink''], [Tokenize ''I want to '', Tokenize ''.'',
       ConvertTokensToIds [''[CLS]'', ''I'', ''want'', ''to'', ''[MASK]'', ''.'', ''[SEP]''],
       Bert [[5, 1, 4, 2, 6, 1, 5]],
       Tokenize ''eat'', ConvertTokensToIds [''eat''],
       Tokenize ''drink'', ConvertTokensToIds [''drink'']])"
proof -
  have d: "distinct_t [''to  eat'', ''to  drink''] = [''to  eat'', ''to  drink'']"
    by (simp add: distinct_t_def)
  have m: "\<not> is_multi [''eat'', ''drink'']" by (simp add: is_multi_def string_ev)
  show ?thesis
    using rank_long [of "[''to  eat'', ''to  drink'']" uniform_model "''I want ***mask***.''",
        unfolded d, OF _ eat_drink_wide] m
    by (simp add: rank_single_eat_drink then_run_def ret_def strip_def isspace_def
          whitespace_chars_def)
qed

lemma probability_say_a_b:
  "fst (get_sentence_probability uniform_model ''Say a b '') = Inr (1 / 512)"
  by (simp add: get_sentence_probability_def run_ev)

lemma rank_a_b_wide:
  "fst (rank uniform_model ''Say ***mask***'' [''a b'', ''a  b'']) = Inr [''a b'', ''a b'']"
proof -
  have d: "distinct_t [''a b'', ''a  b''] = [''a b'', ''a  b'']"
    by (simp add: distinct_t_def)
  have m: "is_multi [[], []]" by (simp add: is_multi_def string_ev)
  have r: "replace ''Say a b ***mask***'' (mask_token uniform_model) [] = ''Say a b ''"
    by (simp add: replace_def uniform_model_def)
  obtain l where p: "get_sentence_probability uniform_model ''Say a b '' = (Inr (1 / 512), l)"
    using probability_say_a_b by (cases "get_sentence_probability uniform_model ''Say a b ''") auto
  have "fst (rank_multi uniform_model ''Say a b ***mask***'' [[], []]) = Inr [[], []]"
    unfolding rank_multi_def multi_scores_def traverse.simps r p
    by (simp add: then_run_def ret_def)
  then show ?thesis
    using rank_long [of "[''a b'', ''a  b'']" uniform_model "''Say ***mask***''",
        unfolded d, OF _ a_b_wide] m
    by (cases "rank_multi uniform_model ''Say a b ***mask***'' [[], []]")
       (simp add: then_run_def ret_def strip_def isspace_def whitespace_chars_def)
qed

lemma rank_run_walk_run:
  "rank uniform_model ''go ***mask*** now'' [''run'', ''walk'', ''run'']
  = (Inr [''run'', ''walk''], [Tokenize ''go '', Tokenize '' now'',
       ConvertTokensToIds [''[CLS]'', ''go'', ''[MASK]'', ''now'', ''[SEP]''],
       Bert [[5, 2, 6, 3, 5]],
       Tokenize ''run'', ConvertTokensToIds [''run''],
       Tokenize ''walk'', ConvertTokensToIds [''walk'']])"
proof -
  have d: "distinct_t [''run'', ''walk'', ''run''] = [''run'', ''walk'']"
    by (simp add: distinct_t_def)
  have m: "\<not> is_multi [''run'', ''walk'']" by (simp add: is_multi_def string_ev)
  show ?thesis
    using rank_long [of "[''run'', ''walk'', ''run'']" uniform_model "''go ***mask*** now''",
        unfolded d, OF _ run_walk] m
    by (simp add: rank_single_run_walk then_run_def ret_def strip_def isspace_def
          whitespace_chars_def)
qed

lemma rank_single_no_words:
  "rank_single uniform_model ''go ***mask*** now'' []
  = (Inr [], [Tokenize ''go '', Tokenize '' now'',
       ConvertTokensToIds [''[CLS]'', ''go'', ''[MASK]'', ''now'', ''[SEP]''],
       Bert [[5, 2, 6, 3, 5]]])"
  by (simp add: rank_single_def single_scores_def run_ev)

text \<open>
  Claim C1, as amended. When every option is its words joined by single spaces, and no
  option is used up by start words and end words that are both there, the list that
  \<open>rank\<close> returns holds every distinct option exactly once: it is a rearrangement of
  the deduplicated options, so its set is the set of the options and the two sets have
  the same size.
\<close>

theorem rank_returns_each_option_once:
  "\<forall>x\<in>set options. make_string '' '' (split_ws x) = x \<Longrightarrow>
   simplify_options self sent (distinct_t options)
     = (options', sent', start_words, end_words) \<Longrightarrow>
   start_words = [] \<or> end_words = [] \<or> [] \<notin> set options' \<Longrightarrow>
   rank self sent options = (Inr out, l) \<Longrightarrow>
     mset out = mset (distinct_t options) \<and> set out = set options \<and> distinct out
     \<and> card (set out) = card (set options)"
proof -
  assume norm: "\<forall>x\<in>set options. make_string '' '' (split_ws x) = x"
    and s: "simplify_options self sent (distinct_t options)
              = (options', sent', start_words, end_words)"
    and side: "start_words = [] \<or> end_words = [] \<or> [] \<notin> set options'"
    and r: "rank self sent options = (Inr out, l)"
  have m: "mset out = mset (distinct_t options)"
    using norm s side r by (rule rank_mset)
  then have "set out = set (distinct_t options)" by (rule mset_eq_setD)
  then have st: "set out = set options" by (simp add: set_distinct_t)
  have d: "distinct out"
    using m distinct_distinct_t [of options] by (metis mset_eq_imp_distinct_iff)
  from m st d show ?thesis by simp
qed

theorem rank_returns_each_option_once_witness:
  "make_string '' '' (split_ws ''to eat'') = ''to eat''
   \<and> make_string '' '' (split_ws ''to drink'') = ''to drink''
   \<and> simplify_options uniform_model ''I want ***mask***.''
        (distinct_t [''to eat'', ''to drink''])
        = ([''eat'', ''drink''], ''I want to ***mask***.'', ''to'', [])
   \<and> fst (rank uniform_model ''I want ***mask***.'' [''to eat'', ''to drink''])
        = Inr [''to eat'', ''to drink'']
   \<and> mset [''to eat'', ''to drink''] = mset (distinct_t [''to eat'', ''to drink''])
   \<and> set [''to eat'', ''to drink''] = set [''to eat'', ''to drink'']
   \<and> distinct [''to eat'', ''to drink'']"
proof -
  have d: "distinct_t [''to eat'', ''to drink''] = [''to eat'', ''to drink'']"
    by (simp add: distinct_t_def)
  have n1: "make_string '' '' (split_ws ''to eat'') = ''to eat''"
    and n2: "make_string '' '' (split_ws ''to drink'') = ''to drink''"
    by (simp_all add: string_ev)
  have norm: "\<forall>x\<in>set [''to eat'', ''to drink'']. make_string '' '' (split_ws x) = x"
    using n1 n2 by simp
  have s: "simplify_options uniform_model ''I want ***mask***.''
        (distinct_t [''to eat'', ''to drink''])
        = ([''eat'', ''drink''], ''I want to ***mask***.'', ''to'', [])"
    unfolding d by (rule eat_drink)
  have side: "''to'' = [] \<or> ([] :: string) = [] \<or> [] \<notin> set [''eat'', ''drink'']"
    by simp
  note t = rank_returns_each_option_once [OF norm s side rank_eat_drink]
  have "fst (rank uniform_model ''I want ***mask***.'' [''to eat'', ''to drink''])
        = Inr [''to eat'', ''to drink'']"
    by (simp add: rank_eat_drink)
  with n1 n2 s t show ?thesis by (intro conjI) blast+
qed

text \<open>
  Claim C1 as stated fails for options that differ in their spacing only: \<open>a b\<close> with
  one space and \<open>a  b\<close> with two are two options, and \<open>rank\<close> returns \<open>a b\<close> twice,
  whatever the scores are.
\<close>

theorem rank_irregular_spacing_counterexample:
  "fst (rank uniform_model ''Say ***mask***'' [''a b'', ''a  b'']) = Inr [''a b'', ''a b'']
   \<and> card (set [''a b'', ''a b'']) = 1 \<and> card (set [''a b'', ''a  b'']) = 2"
  using rank_a_b_wide by simp

text \<open>
  Claim C2, as amended. When \<open>rank\<close> returns a list, \<open>fitb\<close> returns the original
  sentence with the placeholder replaced by the first string of that list, and fails
  with \<open>IndexError\<close> when the list is empty. The string is the whole candidate as
  \<open>rank\<close> puts it together: the single deduplicated option, or else the start words,
  a simplified option and the end words joined by spaces and stripped. It is the exact
  phrase of an option when every option is its words joined by single spaces and no
  option is used up by start words and end words that are both there.
\<close>

theorem fitb_fills_in_first_ranked:
  "rank self sent options = (Inr ranked, l) \<Longrightarrow>
   simplify_options self sent (distinct_t options)
     = (options', sent', start_words, end_words) \<Longrightarrow>
     fitb self sent options =
       (case ranked of
          [] \<Rightarrow> (Inl IndexError, l)
        | best_word # rest \<Rightarrow> (Inr (replace sent (mask_token self) best_word), l))
     \<and> (length (distinct_t options) = 1 \<longrightarrow> ranked = distinct_t options)
     \<and> (length (distinct_t options) \<noteq> 1 \<longrightarrow>
          (\<forall>best_word\<in>set ranked. \<exists>x\<in>set options'.
             best_word = strip (make_string '' '' [start_words, x, end_words])))
     \<and> ((\<forall>x\<in>set options. make_string '' '' (split_ws x) = x)
          \<and> (start_words = [] \<or> end_words = [] \<or> [] \<notin> set options')
          \<longrightarrow> set ranked = set options)"
proof -
  assume r: "rank self sent options = (Inr ranked, l)"
    and s: "simplify_options self sent (distinct_t options)
              = (options', sent', start_words, end_words)"
  have a: "fitb self sent options =
       (case ranked of
          [] \<Rightarrow> (Inl IndexError, l)
        | best_word # rest \<Rightarrow> (Inr (replace sent (mask_token self) best_word), l))"
    by (cases ranked) (simp_all add: fitb_def r then_run_def fail_with_def ret_def)
  have b: "length (distinct_t options) = 1 \<longrightarrow> ranked = distinct_t options"
    using r by (auto simp: rank_short)
  have c: "length (distinct_t options) \<noteq> 1 \<longrightarrow>
          (\<forall>best_word\<in>set ranked. \<exists>x\<in>set options'.
             best_word = strip (make_string '' '' [start_words, x, end_words]))"
  proof
    assume n: "length (distinct_t options) \<noteq> 1"
    from rank_long_Inr [OF n s r] obtain xs where
      xs: "mset xs = mset options'"
      and out: "ranked = map (\<lambda>x. strip (make_string '' '' [start_words, x, end_words])) xs"
      by blast
    from xs have "set xs = set options'" by (rule mset_eq_setD)
    then show "\<forall>best_word\<in>set ranked. \<exists>x\<in>set options'.
             best_word = strip (make_string '' '' [start_words, x, end_words])"
      unfolding out by auto
  qed
  have d: "(\<forall>x\<in>set options. make_string '' '' (split_ws x) = x)
          \<and> (start_words = [] \<or> end_words = [] \<or> [] \<notin> set options')
          \<longrightarrow> set ranked = set options"
  proof
    assume h: "(\<forall>x\<in>set options. make_string '' '' (split_ws x) = x)
          \<and> (start_words = [] \<or> end_words = [] \<or> [] \<notin> set options')"
    then have "mset ranked = mset (distinct_t options)"
      using s r by (intro rank_mset) blast+
    then have "set ranked = set (distinct_t options)" by (rule mset_eq_setD)
    then show "set ranked = set options" by (simp add: set_distinct_t)
  qed
  from a b c d show ?thesis by (intro conjI)
qed

theorem fitb_fills_in_first_ranked_witness:
  "fst (rank uniform_model ''I want ***mask***.'' [''to eat'', ''to drink''])
     = Inr [''to eat'', ''to drink'']
   \<and> simplify_options uniform_model ''I want ***mask***.''
        (distinct_t [''to eat'', ''to drink''])
        = ([''eat'', ''drink''], ''I want to ***mask***.'', ''to'', [])
   \<and> fst (fitb uniform_model ''I want ***mask***.'' [''to eat'', ''to drink''])
     = Inr ''I want to eat.''"
proof -
  have d: "distinct_t [''to eat'', ''to drink''] = [''to eat'', ''to drink'']"
    by (simp add: distinct_t_def)
  have s: "simplify_options uniform_model ''I want ***mask***.''
        (distinct_t [''to eat'', ''to drink''])
        = ([''eat'', ''drink''], ''I want to ***mask***.'', ''to'', [])"
    unfolding d by (rule eat_drink)
  note t = fitb_fills_in_first_ranked [OF rank_eat_drink s, THEN conjunct1]
  have "fst (fitb uniform_model ''I want ***mask***.'' [''to eat'', ''to drink''])
     = Inr ''I want to eat.''"
    unfolding t by (simp add: replace_def mask_uniform_model)
  moreover have "fst (rank uniform_model ''I want ***mask***.'' [''to eat'', ''to drink''])
     = Inr [''to eat'', ''to drink'']"
    by (simp add: rank_eat_drink)
  ultimately show ?thesis using s by (intro conjI)
qed

text \<open>
  Claim C2 as stated fails for options with two spaces between their words: \<open>rank\<close>
  returns both with one space, so \<open>fitb\<close> fills in \<open>to eat\<close>, which is the exact
  phrase of neither option; nor would the other candidate be.
\<close>

theorem fitb_irregular_spacing_counterexample:
  "fst (rank uniform_model ''I want ***mask***.'' [''to  eat'', ''to  drink''])
     = Inr [''to eat'', ''to drink'']
   \<and> fst (fitb uniform_model ''I want ***mask***.'' [''to  eat'', ''to  drink''])
     = Inr ''I want to eat.''
   \<and> replace ''I want ***mask***.'' (mask_token uniform_model) ''to  eat''
     = ''I want to  eat.''
   \<and> replace ''I want ***mask***.'' (mask_token uniform_model) ''to  drink''
     = ''I want to  drink.''"
  by (simp add: fitb_def rank_eat_drink_wide then_run_def ret_def mask_uniform_model replace_def)

section \<open>No options, and duplicates\<close>

lemma then_run_log: "prefix (snd m) (snd (then_run m f))"
  by (cases m; cases "fst m") (auto simp: then_run_def split: prod.splits)

lemma simplify_no_options:
  "strip (mask_token self) = mask_token self \<Longrightarrow>
     simplify_options self sent [] = ([], sent, [], [])"
  by (simp add: simplify_options_def common_start_empty strip_space_left strip_space_right
        replace_same)

lemma rank_no_options:
  "strip (mask_token self) = mask_token self \<Longrightarrow>
     rank self sent [] =
       then_run (rank_single self sent [])
         (\<lambda>ranked. ret (map (\<lambda>x. strip (make_string '' '' [[], x, []])) ranked))"
proof -
  assume m: "strip (mask_token self) = mask_token self"
  have d: "distinct_t ([] :: string list) = []" by (simp add: distinct_t_def)
  have "length (distinct_t ([] :: string list)) \<noteq> 1" by (simp add: d)
  from rank_long [OF this, of self sent, unfolded d, OF simplify_no_options [OF m]]
  show ?thesis by (simp add: is_multi_def)
qed

text \<open>
  Claim C8, as amended. For a sentence with exactly one placeholder (a placeholder
  that does not begin or end with whitespace) and no options, no error is raised before
  the tokenizer and the model are called: \<open>rank\<close> takes the single-token path and
  tokenizes the text before and after the placeholder in every case; when the ids are
  found and the model answers, \<open>rank\<close> returns the empty list after that one call of
  the model, and \<open>fitb\<close> fails with \<open>IndexError\<close> on the first element of the empty
  list.
\<close>

theorem rank_of_no_options:
  "strip (mask_token self) = mask_token self \<Longrightarrow>
   split_sep sent (mask_token self) = Inr [pre, post] \<Longrightarrow>
     (\<exists>r l. rank self sent [] = (r, Tokenize pre # Tokenize post # l))
     \<and> (those (map (vocab self)
                 ([''[CLS]''] @ tokenize self pre @ [''[MASK]''] @ tokenize self post
                  @ [''[SEP]''])) = Some ids
        \<and> bert self [ids] = Some preds \<longrightarrow>
          rank self sent [] =
            (Inr [],
             [Tokenize pre, Tokenize post,
              ConvertTokensToIds ([''[CLS]''] @ tokenize self pre @ [''[MASK]'']
                                  @ tokenize self post @ [''[SEP]'']),
              Bert [ids]])
          \<and> fitb self sent [] =
            (Inl IndexError,
             [Tokenize pre, Tokenize post,
              ConvertTokensToIds ([''[CLS]''] @ tokenize self pre @ [''[MASK]'']
                                  @ tokenize self post @ [''[SEP]'']),
              Bert [ids]]))"
proof -
  assume m: "strip (mask_token self) = mask_token self"
    and sp: "split_sep sent (mask_token self) = Inr [pre, post]"
  let ?tokens = "[''[CLS]''] @ tokenize self pre @ [''[MASK]''] @ tokenize self post @ [''[SEP]'']"
  note rk = rank_no_options [OF m, of sent]
  have "\<exists>l. snd (single_scores self sent []) = Tokenize pre # Tokenize post # l"
    by (simp add: single_scores_def sp call_tokenize_def then_run_value Let_def)
  then obtain l0 where l0: "snd (single_scores self sent []) = Tokenize pre # Tokenize post # l0"
    ..
  have "prefix (snd (single_scores self sent [])) (snd (rank_single self sent []))"
    unfolding rank_single_def by (rule then_run_log)
  moreover have "prefix (snd (rank_single self sent [])) (snd (rank self sent []))"
    unfolding rk by (rule then_run_log)
  ultimately have "prefix (Tokenize pre # Tokenize post # l0) (snd (rank self sent []))"
    unfolding l0 by (rule prefix_order.trans)
  then obtain l1 where "snd (rank self sent []) = (Tokenize pre # Tokenize post # l0) @ l1"
    by (auto simp: prefix_def)
  then have first: "\<exists>r l. rank self sent [] = (r, Tokenize pre # Tokenize post # l)"
    by (cases "rank self sent []") auto
  have second: "rank self sent [] =
            (Inr [], [Tokenize pre, Tokenize post, ConvertTokensToIds ?tokens, Bert [ids]])
          \<and> fitb self sent [] =
            (Inl IndexError,
             [Tokenize pre, Tokenize post, ConvertTokensToIds ?tokens, Bert [ids]])"
    if ok: "those (map (vocab self) ?tokens) = Some ids \<and> bert self [ids] = Some preds"
  proof -
    have c: "convert_tokens_to_ids self ?tokens = (Inr ids, [ConvertTokensToIds ?tokens])"
      using ok by (simp add: convert_tokens_to_ids_def)
    have b: "call_bert self [ids] = (Inr preds, [Bert [ids]])"
      using ok by (simp add: call_bert_def)
    have "single_scores self sent [] =
        (Inr [], [Tokenize pre, Tokenize post, ConvertTokensToIds ?tokens, Bert [ids]])"
      unfolding single_scores_def sp using c b
      by (simp add: call_tokenize_def then_run_value Let_def ret_def)
    then have "rank_single self sent [] =
        (Inr [], [Tokenize pre, Tokenize post, ConvertTokensToIds ?tokens, Bert [ids]])"
      by (simp add: rank_single_def then_run_value ret_def)
    then have r: "rank self sent [] =
        (Inr [], [Tokenize pre, Tokenize post, ConvertTokensToIds ?tokens, Bert [ids]])"
      unfolding rk by (simp add: then_run_value ret_def)
    then have "fitb self sent [] =
        (Inl IndexError, [Tokenize pre, Tokenize post, ConvertTokensToIds ?tokens, Bert [ids]])"
      by (simp add: fitb_def then_run_value fail_with_def)
    with r show ?thesis by blast
  qed
  from first second show ?thesis by blast
qed

theorem rank_of_no_options_witness:
  "strip (mask_token uniform_model) = mask_token uniform_model
   \<and> split_sep ''go ***mask*** now'' (mask_token uniform_model) = Inr [''go '', '' now'']
   \<and> those (map (vocab uniform_model)
              ([''[CLS]''] @ tokenize uniform_model ''go '' @ [''[MASK]'']
               @ tokenize uniform_model '' now'' @ [''[SEP]''])) = Some [5, 2, 6, 3, 5]
   \<and> bert uniform_model [[5, 2, 6, 3, 5]]
       = Some [[[0, 0, 0, 0, 0, 0, 0, 0], [0, 0, 0, 0, 0, 0, 0, 0], [0, 0, 0, 0, 0, 0, 0, 0],
                [0, 0, 0, 0, 0, 0, 0, 0], [0, 0, 0, 0, 0, 0, 0, 0]]]
   \<and> rank uniform_model ''go ***mask*** now'' [] =
        (Inr [],
         [Tokenize ''go '', Tokenize '' now'',
          ConvertTokensToIds ([''[CLS]''] @ tokenize uniform_model ''go '' @ [''[MASK]'']
                              @ tokenize uniform_model '' now'' @ [''[SEP]'']),
          Bert [[5, 2, 6, 3, 5]]])
   \<and> fitb uniform_model ''go ***mask*** now'' [] =
        (Inl IndexError,
         [Tokenize ''go '', Tokenize '' now'',
          ConvertTokensToIds ([''[CLS]''] @ tokenize uniform_model ''go '' @ [''[MASK]'']
                              @ tokenize uniform_model '' now'' @ [''[SEP]'']),
          Bert [[5, 2, 6, 3, 5]]])"
proof -
  have m: "strip (mask_token uniform_model) = mask_token uniform_model"
    by (simp add: mask_uniform_model string_ev)
  have sp: "split_sep ''go ***mask*** now'' (mask_token uniform_model) = Inr [''go '', '' now'']"
    by (simp add: mask_uniform_model split_sep_def)
  have v: "those (map (vocab uniform_model)
              ([''[CLS]''] @ tokenize uniform_model ''go '' @ [''[MASK]'']
               @ tokenize uniform_model '' now'' @ [''[SEP]''])) = Some [5, 2, 6, 3, 5]"
    by (simp add: uniform_model_def string_ev)
  have b: "bert uniform_model [[5, 2, 6, 3, 5]]
       = Some [[[0, 0, 0, 0, 0, 0, 0, 0], [0, 0, 0, 0, 0, 0, 0, 0], [0, 0, 0, 0, 0, 0, 0, 0],
                [0, 0, 0, 0, 0, 0, 0, 0], [0, 0, 0, 0, 0, 0, 0, 0]]]"
    by (simp add: uniform_model_def)
  note t = rank_of_no_options [OF m sp, THEN conjunct2, THEN mp, OF conjI [OF v b]]
  from m sp v b t show ?thesis by (intro conjI) blast+
qed

text \<open>
  Claim C8 as stated fails: with no options \<open>rank\<close> returns the empty list and has
  called the model, and the error of \<open>fitb\<close> is the \<open>IndexError\<close> raised afterwards.
\<close>

theorem rank_of_no_options_counterexample:
  "rank uniform_model ''go ***mask*** now'' [] =
     (Inr [], [Tokenize ''go '', Tokenize '' now'',
        ConvertTokensToIds [''[CLS]'', ''go'', ''[MASK]'', ''now'', ''[SEP]''],
        Bert [[5, 2, 6, 3, 5]]])
   \<and> fitb uniform_model ''go ***mask*** now'' [] =
     (Inl IndexError, [Tokenize ''go '', Tokenize '' now'',
        ConvertTokensToIds [''[CLS]'', ''go'', ''[MASK]'', ''now'', ''[SEP]''],
        Bert [[5, 2, 6, 3, 5]]])"
proof -
  have m: "strip (mask_token uniform_model) = mask_token uniform_model"
    by (simp add: mask_uniform_model string_ev)
  have r: "rank uniform_model ''go ***mask*** now'' [] =
     (Inr [], [Tokenize ''go '', Tokenize '' now'',
        ConvertTokensToIds [''[CLS]'', ''go'', ''[MASK]'', ''now'', ''[SEP]''],
        Bert [[5, 2, 6, 3, 5]]])"
    unfolding rank_no_options [OF m] rank_single_no_words
    by (simp add: then_run_def ret_def)
  then show ?thesis by (simp add: fitb_def then_run_def fail_with_def)
qed

lemma rank_order:
  assumes n: "length (distinct_t options) \<noteq> 1"
    and s: "simplify_options self sent (distinct_t options)
              = (options', sent', start_words, end_words)"
    and r: "rank self sent options = (Inr out, l)"
  shows "\<exists>scores order.
           (if is_multi options' then multi_scores self sent' options'
            else single_scores self sent' options') = (Inr scores, l)
           \<and> length scores = length (distinct_t options)
           \<and> mset order = mset [0..<length (distinct_t options)]
           \<and> out = map (\<lambda>i. strip (make_string '' '' [start_words, options' ! i, end_words]))
                      order
           \<and> sorted_wrt (\<lambda>i j. scores ! j < scores ! i \<or> (scores ! i = scores ! j \<and> i < j))
                order"
proof -
  let ?f = "\<lambda>x. strip (make_string '' '' [start_words, x, end_words])"
  have len': "length options' = length (distinct_t options)"
    by (rule simplify_options_words(3) [OF s])
  from r obtain ranked where
    rk: "(if is_multi options' then rank_multi self sent' options'
          else rank_single self sent' options') = (Inr ranked, l)"
    and out: "out = map ?f ranked"
    unfolding rank_long [OF n s] then_run_ret by blast
  have "\<exists>scores. (if is_multi options' then multi_scores self sent' options'
            else single_scores self sent' options') = (Inr scores, l)
          \<and> length scores = length options'
          \<and> ranked = map snd (sorted_desc (zip scores options'))"
  proof (cases "is_multi options'")
    case True
    with rk have "rank_multi self sent' options' = (Inr ranked, l)" by simp
    then obtain scores where sc: "multi_scores self sent' options' = (Inr scores, l)"
      and "ranked = map snd (sorted_desc (zip scores options'))"
      unfolding rank_multi_def then_run_ret by blast
    then show ?thesis using True multi_scores_length [OF sc] by auto
  next
    case False
    with rk have "rank_single self sent' options' = (Inr ranked, l)" by simp
    then obtain scores where sc: "single_scores self sent' options' = (Inr scores, l)"
      and "ranked = map snd (sorted_desc (zip scores options'))"
      unfolding rank_single_def then_run_ret by blast
    then show ?thesis using False single_scores_length [OF sc] by auto
  qed
  then obtain scores where
    sc: "(if is_multi options' then multi_scores self sent' options'
          else single_scores self sent' options') = (Inr scores, l)"
    and len: "length scores = length options'"
    and ranked: "ranked = map snd (sorted_desc (zip scores options'))"
    by blast
  from ranking_order [OF len] obtain order where
    p: "mset order = mset [0..<length options']"
    and o: "map snd (sorted_desc (zip scores options')) = map (\<lambda>i. options' ! i) order"
    and w: "sorted_wrt (\<lambda>i j. scores ! j < scores ! i \<or> (scores ! i = scores ! j \<and> i < j))
              order"
    by blast
  have "out = map (\<lambda>i. ?f (options' ! i)) order"
    unfolding out ranked o by simp
  with sc len p w show ?thesis unfolding len' by blast
qed

text \<open>
  Claim C6. The deduplication in \<open>rank\<close> keeps the option at position \<open>i\<close> exactly
  when no earlier position holds the same string, and keeps these first occurrences in
  their order, so that no string is kept twice and none is lost. \<open>rank\<close> works on that
  list only: duplicates change nothing; a single kept option is returned as it is; and
  otherwise the result is the kept options, put together again from their simplified
  forms, in the arrangement of their positions in the deduplicated list that has of any
  two positions the higher score first, or the same score and the earlier position
  first.
\<close>

theorem rank_deduplicates_keeping_first_occurrences:
  "distinct_t options =
     map (\<lambda>i. options ! i)
       (filter (\<lambda>i. options ! i \<notin> set (take i options)) [0..<length options])
   \<and> distinct (distinct_t options) \<and> set (distinct_t options) = set options
   \<and> rank self sent options = rank self sent (distinct_t options)
   \<and> (length (distinct_t options) = 1 \<longrightarrow>
        rank self sent options = (Inr (distinct_t options), []))
   \<and> (length (distinct_t options) \<noteq> 1
        \<and> simplify_options self sent (distinct_t options)
            = (options', sent', start_words, end_words)
        \<and> rank self sent options = (Inr out, l) \<longrightarrow>
        (\<exists>scores order.
           (if is_multi options' then multi_scores self sent' options'
            else single_scores self sent' options') = (Inr scores, l)
           \<and> length scores = length (distinct_t options)
           \<and> mset order = mset [0..<length (distinct_t options)]
           \<and> out = map (\<lambda>i. strip (make_string '' '' [start_words, options' ! i, end_words]))
                      order
           \<and> sorted_wrt (\<lambda>i j. scores ! j < scores ! i \<or> (scores ! i = scores ! j \<and> i < j))
                order))"
proof -
  have a: "distinct_t options =
     map (\<lambda>i. options ! i)
       (filter (\<lambda>i. options ! i \<notin> set (take i options)) [0..<length options])"
    by (rule distinct_t_first)
  have b: "rank self sent options = rank self sent (distinct_t options)"
    by (simp add: rank_def distinct_t_idem)
  have c: "length (distinct_t options) = 1 \<longrightarrow>
        rank self sent options = (Inr (distinct_t options), [])"
    by (simp add: rank_short)
  have d: "length (distinct_t options) \<noteq> 1
        \<and> simplify_options self sent (distinct_t options)
            = (options', sent', start_words, end_words)
        \<and> rank self sent options = (Inr out, l) \<longrightarrow>
        (\<exists>scores order.
           (if is_multi options' then multi_scores self sent' options'
            else single_scores self sent' options') = (Inr scores, l)
           \<and> length scores = length (distinct_t options)
           \<and> mset order = mset [0..<length (distinct_t options)]
           \<and> out = map (\<lambda>i. strip (make_string '' '' [start_words, options' ! i, end_words]))
                      order
           \<and> sorted_wrt (\<lambda>i j. scores ! j < scores ! i \<or> (scores ! i = scores ! j \<and> i < j))
                order)"
    using rank_order [of options self sent options' sent' start_words end_words out l]
    by blast
  from a b c d distinct_distinct_t [of options] set_distinct_t [of options]
  show ?thesis by (intro conjI)
qed

theorem rank_deduplicates_keeping_first_occurrences_witness:
  "distinct_t [''run'', ''walk'', ''run''] = [''run'', ''walk'']
   \<and> length (distinct_t [''run'', ''walk'', ''run'']) \<noteq> 1
   \<and> simplify_options uniform_model ''go ***mask*** now''
        (distinct_t [''run'', ''walk'', ''run''])
        = ([''run'', ''walk''], ''go ***mask*** now'', [], [])
   \<and> rank uniform_model ''go ***mask*** now'' [''run'', ''walk'', ''run'']
       = (Inr [''run'', ''walk''],
          snd (rank uniform_model ''go ***mask*** now'' [''run'', ''walk'', ''run'']))
   \<and> rank uniform_model ''go ***mask*** now'' [''run'', ''walk'', ''run'']
       = rank uniform_model ''go ***mask*** now'' [''run'', ''walk'']
   \<and> (\<exists>scores order.
         (if is_multi [''run'', ''walk'']
          then multi_scores uniform_model ''go ***mask*** now'' [''run'', ''walk'']
          else single_scores uniform_model ''go ***mask*** now'' [''run'', ''walk''])
           = (Inr scores,
              snd (rank uniform_model ''go ***mask*** now'' [''run'', ''walk'', ''run'']))
         \<and> length scores = length (distinct_t [''run'', ''walk'', ''run''])
         \<and> mset order = mset [0..<length (distinct_t [''run'', ''walk'', ''run''])]
         \<and> [''run'', ''walk'']
             = map (\<lambda>i. strip (make_string '' '' [[], [''run'', ''walk''] ! i, []])) order
         \<and> sorted_wrt (\<lambda>i j. scores ! j < scores ! i \<or> (scores ! i = scores ! j \<and> i < j))
              order)"
proof -
  have d: "distinct_t [''run'', ''walk'', ''run''] = [''run'', ''walk'']"
    by (simp add: distinct_t_def)
  have n: "length (distinct_t [''run'', ''walk'', ''run'']) \<noteq> 1"
    by (simp add: d)
  have s: "simplify_options uniform_model ''go ***mask*** now''
        (distinct_t [''run'', ''walk'', ''run''])
        = ([''run'', ''walk''], ''go ***mask*** now'', [], [])"
    unfolding d by (rule run_walk)
  have r: "rank uniform_model ''go ***mask*** now'' [''run'', ''walk'', ''run'']
       = (Inr [''run'', ''walk''],
          snd (rank uniform_model ''go ***mask*** now'' [''run'', ''walk'', ''run'']))"
    by (simp add: rank_run_walk_run)
  note t = rank_deduplicates_keeping_first_occurrences
      [of "[''run'', ''walk'', ''run'']" uniform_model "''go ***mask*** now''"
          "[''run'', ''walk'']" "''go ***mask*** now''" "[]" "[]" "[''run'', ''walk'']"
          "snd (rank uniform_model ''go ***mask*** now'' [''run'', ''walk'', ''run''])"]
  note same = conjunct1 [OF conjunct2 [OF conjunct2 [OF conjunct2 [OF t]]]]
  note last = conjunct2 [OF conjunct2 [OF conjunct2 [OF conjunct2 [OF conjunct2 [OF t]]]]]
  note e = mp [OF last conjI [OF n conjI [OF s r]]]
  have same': "rank uniform_model ''go ***mask*** now'' [''run'', ''walk'', ''run'']
       = rank uniform_model ''go ***mask*** now'' [''run'', ''walk'']"
    using same unfolding d .
  from d n s r same' e show ?thesis by (intro conjI)
qed

end
